theory Spec2Isabelle
  imports Complex_Main "HOL-Library.Word" "HOL-Library.Sublist"
begin

section \<open>The TTS sidecar server (sidecar/tts-server.py)\<close>

text \<open>
  The server loads a speech model, then reads JSON command lines on stdin in a background
  thread and streams length-prefixed PCM frames to stdout from the main thread. This
  theory embeds the module function by function: the PCM encoder, the frame writer, the
  generation routine, the stdin reader thread, the command loop and the startup sequence.
\<close>

subsection \<open>Python strings\<close>

text \<open>
  A Python \<open>str\<close> is a sequence of Unicode code points; a \<open>bytes\<close> object is a
  sequence of octets. String constants of the module are written with \<open>str\<close>.
\<close>

type_synonym pystr = "nat list"
type_synonym byte = "8 word"

definition str :: "string \<Rightarrow> pystr" where
  "str s = map of_char s"

text \<open>
  \<open>str.strip()\<close> without argument removes leading and trailing whitespace, that is the
  code points for which \<open>str.isspace\<close> holds.
\<close>

definition py_isspace :: "nat \<Rightarrow> bool" where
  "py_isspace c =
     ((0x09 \<le> c \<and> c \<le> 0x0D) \<or> (0x1C \<le> c \<and> c \<le> 0x20) \<or> c = 0x85 \<or> c = 0xA0
      \<or> c = 0x1680 \<or> (0x2000 \<le> c \<and> c \<le> 0x200A) \<or> c = 0x2028 \<or> c = 0x2029
      \<or> c = 0x202F \<or> c = 0x205F \<or> c = 0x3000)"

definition strip :: "pystr \<Rightarrow> pystr" where
  "strip s = rev (dropWhile py_isspace (rev (dropWhile py_isspace s)))"

subsection \<open>Samples: float32\<close>

text \<open>
  The samples are IEEE 754 single-precision numbers. \<open>Finite s m e\<close> is the number
  \<open>(-1)\<^sup>s \<sqdot> m \<sqdot> 2\<^sup>e\<close>; the numbers of the format are those with
  \<open>m < 2\<^sup>2\<^sup>4\<close> and \<open>-149 \<le> e \<le> 104\<close>, and one number may be written with
  several pairs \<open>m\<close>, \<open>e\<close>. \<open>valof\<close> is the real number so written. The other
  values of the format are the two infinities (\<open>Infinity True\<close> is the negative one)
  and NaN. \<open>f32 n\<close> is the float of a small integer \<open>n\<close>, as a literal such as
  \<open>-1.0\<close> denotes it.
\<close>

datatype float32 = Finite bool nat int | Infinity bool | NaN

definition pow2 :: "int \<Rightarrow> real" where
  "pow2 e = (if 0 \<le> e then 2 ^ nat e else 1 / 2 ^ nat (- e))"

definition valof :: "bool \<Rightarrow> nat \<Rightarrow> int \<Rightarrow> real" where
  "valof s m e = (if s then - 1 else 1) * real m * pow2 e"

definition f32 :: "int \<Rightarrow> float32" where
  "f32 n = Finite (n < 0) (nat \<bar>n\<bar>) 0"

text \<open>
  The order of the floats: a comparison with NaN is false, and the infinities lie beyond
  every number.
\<close>

fun less32 :: "float32 \<Rightarrow> float32 \<Rightarrow> bool" where
  "less32 (Finite s m e) (Finite s' m' e') = (valof s m e < valof s' m' e')"
| "less32 (Finite s m e) (Infinity s') = (\<not> s')"
| "less32 (Infinity s) (Finite s' m' e') = s"
| "less32 (Infinity s) (Infinity s') = (s \<and> \<not> s')"
| "less32 NaN y = False"
| "less32 x NaN = False"

text \<open>
  The product of a float32 and a positive integer that is itself a float32, as in
  \<open>clamped * 32767\<close>: the exact product \<open>M \<sqdot> 2\<^sup>e\<close> is rounded to the nearest
  number with a significand of 24 bits, a tie going to the even significand, and is an
  infinity when the rounded value reaches \<open>2\<^sup>1\<^sup>2\<^sup>8\<close>. \<open>excess M\<close> is the
  number of bits that \<open>M\<close> has beyond 24. The exact product is a multiple of
  \<open>2\<^sup>e\<close>, so that no bit below \<open>2\<^sup>-\<^sup>1\<^sup>4\<^sup>9\<close> arises and the subnormal
  range needs no rounding of its own.
\<close>

function excess :: "nat \<Rightarrow> nat" where
  "excess M = (if M < 2 ^ 24 then 0 else Suc (excess (M div 2)))"
  by pat_completeness auto
termination
  by (relation "measure id") auto

declare excess.simps [simp del]

definition round_half_even :: "nat \<Rightarrow> nat \<Rightarrow> nat" where
  "round_half_even M k =
     (if k = 0 then M
      else let q = M div 2 ^ k; r = M mod 2 ^ k; half = 2 ^ (k - 1)
           in if half < r then q + 1 else if r = half \<and> odd q then q + 1 else q)"

fun mul32 :: "float32 \<Rightarrow> nat \<Rightarrow> float32" where
  "mul32 (Finite s m e) n =
     (let M = m * n; k = excess M; R = round_half_even M k
      in if 2 ^ 128 \<le> real R * pow2 (e + int k) then Infinity s
         else if R = 2 ^ 24 then Finite s (2 ^ 23) (e + int k + 1)
         else Finite s R (e + int k))"
| "mul32 (Infinity s) n = (if n = 0 then NaN else Infinity s)"
| "mul32 NaN n = NaN"

declare mul32.simps [simp del]

subsection \<open>PCM encoder: \<open>float32_to_int16_pcm\<close>\<close>

text \<open>
  \<open>np.clip(a, lo, hi)\<close> is \<open>minimum(maximum(a, lo), hi)\<close>, and both pass a NaN on.
  \<open>astype(np.int16)\<close> is the conversion of C: it drops the fractional part, that is it
  rounds toward zero. C leaves the conversion of NaN, of an infinity and of a number
  beyond the range of the integer type undefined, and numpy returns what the conversion
  instruction of the machine returns: for NaN that is 0, on arm64 as on x86-64. After the
  clamp a sample is NaN or a number between -1 and 1, so an infinity and a number beyond
  the int16 range do not reach the conversion; here they give 0 and the low 16 bits.
  \<open>tobytes()\<close> writes each int16 in the machine's byte order, which is little-endian
  on the machines the server runs on, as the function's docstring says.
\<close>

definition np_maximum :: "float32 \<Rightarrow> float32 \<Rightarrow> float32" where
  "np_maximum x y =
     (if x = NaN then NaN else if y = NaN then NaN else if less32 x y then y else x)"

definition np_minimum :: "float32 \<Rightarrow> float32 \<Rightarrow> float32" where
  "np_minimum x y =
     (if x = NaN then NaN else if y = NaN then NaN else if less32 y x then y else x)"

definition np_clip :: "float32 \<Rightarrow> float32 \<Rightarrow> float32 \<Rightarrow> float32" where
  "np_clip a lo hi = np_minimum (np_maximum a lo) hi"

definition toward_zero :: "real \<Rightarrow> int" where
  "toward_zero x = (if 0 \<le> x then \<lfloor>x\<rfloor> else \<lceil>x\<rceil>)"

fun astype_int16 :: "float32 \<Rightarrow> 16 word" where
  "astype_int16 (Finite s m e) = word_of_int (toward_zero (valof s m e))"
| "astype_int16 (Infinity s) = 0"
| "astype_int16 NaN = 0"

definition tobytes :: "16 word \<Rightarrow> byte list" where
  "tobytes w = [ucast w, ucast (drop_bit 8 w)]"

definition float32_to_int16_pcm :: "float32 list \<Rightarrow> byte list" where
  "float32_to_int16_pcm audio =
     (let clamped = map (\<lambda>a. np_clip a (f32 (- 1)) (f32 1)) audio;
          int16 = map (\<lambda>c. astype_int16 (mul32 c 32767)) clamped
      in concat (map tobytes int16))"

text \<open>
  The encoder as the specification words it: clamp the sample to \<open>[-1, 1]\<close>, scale by
  32767, truncate toward zero to an integer, and write that integer as a signed 16-bit
  value in two's complement, low byte first. The clamp and the truncation are functions
  of real numbers; the scaled value is a float, a number with a significand of 24 bits.
\<close>

definition spec_clamp :: "real \<Rightarrow> real" where
  "spec_clamp x = (if x < - 1 then - 1 else if 1 < x then 1 else x)"

definition spec_truncate :: "real \<Rightarrow> int" where
  "spec_truncate x = (if x < 0 then - 1 else 1) * \<lfloor>\<bar>x\<bar>\<rfloor>"

definition spec_le16 :: "int \<Rightarrow> byte list" where
  "spec_le16 n = [of_int (n mod 256), of_int ((n div 256) mod 256)]"

definition has_24_bits :: "real \<Rightarrow> bool" where
  "has_24_bits p = (\<exists>M E. M < (2::nat) ^ 24 \<and> \<bar>p\<bar> = real M * pow2 E)"

subsection \<open>Frame writer: \<open>write_audio_chunk\<close> and \<open>write_end_marker\<close>\<close>

text \<open>
  \<open>struct.pack(">I", n)\<close> gives the four bytes of \<open>n\<close>, most significant first, and
  raises \<open>struct.error\<close> when \<open>n\<close> does not fit 32 bits.
\<close>

definition be32 :: "nat \<Rightarrow> byte list" where
  "be32 n = [of_nat (n div 2 ^ 24), of_nat (n div 2 ^ 16), of_nat (n div 2 ^ 8), of_nat n]"

definition pack_u32_be :: "nat \<Rightarrow> pystr + byte list" where
  "pack_u32_be n = (if n < 2 ^ 32 then Inr (be32 n) else Inl (str ''struct.error''))"

text \<open>
  A frame on the wire: the length of the payload in four bytes, then the payload. The
  end marker is the frame of the empty payload.
\<close>

definition frame :: "byte list \<Rightarrow> byte list" where
  "frame payload = be32 (length payload) @ payload"

definition end_marker :: "byte list" where
  "end_marker = be32 0"

subsection \<open>The wire format, read back\<close>

text \<open>
  The module's protocol comment: stdout is a sequence of frames, each a 4-byte big-endian
  length \<open>N\<close> followed by \<open>N\<close> payload bytes; \<open>N = 0\<close> is the end of a generation.
  \<open>parse_frames\<close> splits a byte stream into the payloads of its frames, and fails on a
  stream that stops inside a frame.
\<close>

definition unpack_u32_be :: "byte list \<Rightarrow> nat" where
  "unpack_u32_be h = foldl (\<lambda>acc b. acc * 256 + unat b) 0 h"

function parse_frames :: "byte list \<Rightarrow> byte list list option" where
  "parse_frames bs =
     (if bs = [] then Some []
      else if length bs < 4 then None
      else let n = unpack_u32_be (take 4 bs); rest = drop 4 bs
           in if length rest < n then None
              else map_option (Cons (take n rest)) (parse_frames (drop n rest)))"
  by pat_completeness auto
termination
  by (relation "measure length") auto

declare parse_frames.simps [simp del]

subsection \<open>JSON values and the speech model\<close>

text \<open>
  \<open>json.loads\<close> returns a dict, a list, a string, a number, a boolean or \<open>None\<close>.
  A dict is kept as an association list, looked up with \<open>map_of\<close>. Only a dict has
  the method \<open>get\<close>: on any other value \<open>cmd.get(...)\<close> raises \<open>AttributeError\<close>.
\<close>

datatype json =
  JNull | JBool bool | JInt int | JFloat real | JStr pystr
  | JArr "json list" | JObj "(pystr \<times> json) list"

definition dict_get :: "json \<Rightarrow> pystr \<Rightarrow> pystr + json option" where
  "dict_get v k = (case v of JObj d \<Rightarrow> Inr (map_of d k) | _ \<Rightarrow> Inl (str ''AttributeError''))"

text \<open>
  The model is an external collaborator. \<open>model.generate(...)\<close> returns a lazy stream:
  each pull yields a result or raises, and the stream ends when the list does. An
  exception raised by the call itself is a stream whose first pull raises. The audio of a
  result is an array of samples, or a value on which \<open>np.array(result.audio, copy=False)\<close>
  raises. The third argument of \<open>generate\<close> is the keyword \<open>stream\<close>, absent in the
  warm-up call.
\<close>

datatype result = Samples "float32 list" | Unconvertible pystr

datatype pull = Yield result | Raise pystr

record model =
  sample_rate :: int
  generate :: "pystr \<Rightarrow> pystr \<Rightarrow> bool option \<Rightarrow> pull list"

text \<open>
  What the module takes from Python and its libraries: \<open>load_model\<close> of mlx-audio,
  \<open>json.loads\<close> (\<open>Inl\<close> is the message of a \<open>JSONDecodeError\<close>), and the
  formatting of a value inside an f-string.
\<close>

record env =
  load_model :: "pystr \<Rightarrow> pystr + model"
  json_loads :: "pystr \<Rightarrow> pystr + json"
  format_value :: "json option \<Rightarrow> pystr"
  format_int :: "int \<Rightarrow> pystr"

subsection \<open>The state of the process\<close>

text \<open>
  \<open>stdin\<close> holds the lines the reader thread has not read yet; \<open>reader_alive\<close> is
  false once the thread has died from an uncaught exception. \<open>interrupted\<close> is the
  \<open>threading.Event\<close>, \<open>command_queue\<close> the \<open>queue.Queue\<close>. \<open>stdout\<close> is the byte
  stream written so far, \<open>stderr\<close> the list of strings written so far, one per call of
  \<open>write\<close>. \<open>generate_calls\<close> records the calls of \<open>model.generate\<close> with their text
  and voice. \<open>sched\<close> is the scheduler's choice: how many further lines the reader
  thread gets through before each of the main thread's coming accesses to the shared
  state.
\<close>

record sys =
  stdin :: "pystr list"
  reader_alive :: bool
  interrupted :: bool
  command_queue :: "json list"
  stdout :: "byte list"
  stderr :: "pystr list"
  generate_calls :: "(pystr \<times> pystr) list"
  sched :: "nat list"

definition nl :: pystr where
  "nl = [0x0A]"

definition log_msg :: "pystr \<Rightarrow> sys \<Rightarrow> sys" where
  "log_msg msg st = st\<lparr>stderr := stderr st @ [str ''[tts-server] '' @ msg @ nl]\<rparr>"

definition write_audio_chunk :: "byte list \<Rightarrow> sys \<Rightarrow> pystr + sys" where
  "write_audio_chunk pcm_bytes st =
     (case pack_u32_be (length pcm_bytes) of
        Inl e \<Rightarrow> Inl e
      | Inr header \<Rightarrow> Inr (st\<lparr>stdout := stdout st @ header @ pcm_bytes\<rparr>))"

definition write_end_marker :: "sys \<Rightarrow> sys" where
  "write_end_marker st = st\<lparr>stdout := stdout st @ be32 0\<rparr>"

subsection \<open>The reader thread: \<open>stdin_reader\<close>\<close>

text \<open>
  One iteration of \<open>for line in sys.stdin\<close>. A blank line is skipped; a line that
  \<open>json.loads\<close> rejects is logged and skipped; an interrupt command sets the event;
  any other dict goes to the queue. \<open>cmd.get\<close> is outside the \<open>try\<close>, so a parsed
  value that is not a dict ends the thread.
\<close>

definition stdin_reader_line :: "env \<Rightarrow> pystr \<Rightarrow> sys \<Rightarrow> sys" where
  "stdin_reader_line E raw st =
     (let line = strip raw in
      if line = [] then st
      else case json_loads E line of
             Inl e \<Rightarrow> log_msg (str ''ERROR: Invalid JSON: '' @ e) st
           | Inr cmd \<Rightarrow>
               (case dict_get cmd (str ''cmd'') of
                  Inl e \<Rightarrow> st\<lparr>reader_alive := False\<rparr>
                | Inr c \<Rightarrow>
                    if c = Some (JStr (str ''interrupt''))
                    then st\<lparr>interrupted := True\<rparr>
                    else st\<lparr>command_queue := command_queue st @ [cmd]\<rparr>))"

text \<open>The reader thread gets through at most \<open>n\<close> further lines.\<close>

fun stdin_reader :: "env \<Rightarrow> nat \<Rightarrow> sys \<Rightarrow> sys" where
  "stdin_reader E 0 st = st"
| "stdin_reader E (Suc n) st =
     (if reader_alive st
      then case stdin st of
             [] \<Rightarrow> st
           | line # lines \<Rightarrow> stdin_reader E n (stdin_reader_line E line (st\<lparr>stdin := lines\<rparr>))
      else st)"

text \<open>
  The two threads interleave. The reader thread touches the shared state once per line,
  and between two accesses of the main thread to the shared state (the event, the queue,
  stderr) everything the reader thread did can be moved to just before the second one.
  So the main thread lets the reader thread run, by the next number of \<open>sched\<close>, before
  each of its own accesses.
\<close>

definition yield :: "env \<Rightarrow> sys \<Rightarrow> sys" where
  "yield E st =
     (case sched st of
        [] \<Rightarrow> st
      | n # ns \<Rightarrow> stdin_reader E n (st\<lparr>sched := ns\<rparr>))"

text \<open>
  \<open>command_queue.get()\<close> blocks while the queue is empty: the reader thread runs on,
  line by line, until it has put a command. When the reader thread has ended (end of
  input, or dead) and the queue is empty, the main thread waits forever: the result is
  \<open>None\<close>.
\<close>

function queue_get :: "env \<Rightarrow> sys \<Rightarrow> json option \<times> sys" where
  "queue_get E st =
     (case command_queue st of
        cmd # q \<Rightarrow> (Some cmd, st\<lparr>command_queue := q\<rparr>)
      | [] \<Rightarrow>
          if reader_alive st \<and> stdin st \<noteq> []
          then queue_get E (stdin_reader E 1 st)
          else (None, st))"
  by pat_completeness auto
termination
  by (relation "measure (\<lambda>(E, st). length (stdin st))")
     (auto simp: stdin_reader_line_def log_msg_def Let_def neq_Nil_conv
           split: sum.splits)

declare queue_get.simps [simp del]

subsection \<open>The generation routine: \<open>handle_generate\<close>\<close>

text \<open>
  The loop \<open>for result in results\<close>: pull the next result (the stream may raise or end),
  then test the event, then convert, encode and write. The value returned is the
  exception that left the loop, if one did.
\<close>

fun for_results :: "env \<Rightarrow> pull list \<Rightarrow> sys \<Rightarrow> pystr option \<times> sys" where
  "for_results E [] st = (None, st)"
| "for_results E (Raise e # rest) st = (Some e, st)"
| "for_results E (Yield r # rest) st =
     (let st1 = yield E st in
      if interrupted st1 then (None, st1)
      else case r of
             Unconvertible e \<Rightarrow> (Some e, st1)
           | Samples audio \<Rightarrow>
               (case write_audio_chunk (float32_to_int16_pcm audio) st1 of
                  Inl e \<Rightarrow> (Some e, st1)
                | Inr st2 \<Rightarrow> for_results E rest st2))"

definition handle_generate :: "env \<Rightarrow> model \<Rightarrow> pystr \<Rightarrow> pystr \<Rightarrow> sys \<Rightarrow> sys" where
  "handle_generate E m text voice st =
     (if strip text = [] then write_end_marker st
      else
        let st0 = st\<lparr>generate_calls := generate_calls st @ [(text, voice)]\<rparr> in
        case for_results E (generate m text voice (Some True)) st0 of
          (None, st1) \<Rightarrow> write_end_marker st1
        | (Some e, st1) \<Rightarrow>
            write_end_marker (log_msg (str ''ERROR: Generation failed: '' @ e) (yield E st1)))"

text \<open>
  The chunks that the loop writes when nothing interrupts it: those pulled before the
  stream ends or raises, before a result that does not convert, and before a chunk too
  long for the 32-bit length.
\<close>

fun writable :: "pull list \<Rightarrow> float32 list list" where
  "writable [] = []"
| "writable (Raise e # rest) = []"
| "writable (Yield (Unconvertible e) # rest) = []"
| "writable (Yield (Samples audio) # rest) =
     (if length (float32_to_int16_pcm audio) < 2 ^ 32 then audio # writable rest else [])"

text \<open>
  The stream that \<open>handle_generate\<close> iterates over: for a blank text the model is not
  called and there is nothing to iterate.
\<close>

definition results_of :: "model \<Rightarrow> pystr \<Rightarrow> pystr \<Rightarrow> pull list" where
  "results_of m text voice = (if strip text = [] then [] else generate m text voice (Some True))"

text \<open>The bytes of the data frames of a list of chunks, each encoded and framed.\<close>

definition frames :: "float32 list list \<Rightarrow> byte list" where
  "frames chunks = concat (map (\<lambda>audio. frame (float32_to_int16_pcm audio)) chunks)"

text \<open>
  The state as the main thread finds it when it tests the event for the \<open>(i+1)\<close>-th time
  in a generation that starts in \<open>st\<close>: the reader thread has had \<open>i + 1\<close> turns. The
  main thread's own writes to stdout in between do not change what the reader thread does.
\<close>

definition at_check :: "env \<Rightarrow> sys \<Rightarrow> nat \<Rightarrow> sys" where
  "at_check E st i = (yield E ^^ Suc i) st"

subsection \<open>The command loop of \<open>main\<close>\<close>

text \<open>
  \<open>pending\<close> counts the commands still to come: the lines not yet read and the commands
  in the queue. Neither thread ever raises it, and each \<open>get\<close> lowers it, which is why
  the command loop comes to an end on every finite input.
\<close>

definition pending :: "sys \<Rightarrow> nat" where
  "pending st = length (stdin st) + length (command_queue st)"

lemma stdin_reader_line_pending:
  "pending (stdin_reader_line E l st) \<le> Suc (pending st)"
  by (simp add: stdin_reader_line_def pending_def log_msg_def Let_def split: sum.splits)

lemma stdin_reader_pending: "pending (stdin_reader E n st) \<le> pending st"
proof (induction n arbitrary: st)
  case 0
  show ?case by simp
next
  case (Suc n)
  show ?case
  proof (cases "reader_alive st \<and> stdin st \<noteq> []")
    case False
    then show ?thesis by (auto split: list.splits)
  next
    case True
    then obtain l ls where ls: "stdin st = l # ls" by (auto simp: neq_Nil_conv)
    have "pending (stdin_reader E n (stdin_reader_line E l (st\<lparr>stdin := ls\<rparr>)))
            \<le> pending (stdin_reader_line E l (st\<lparr>stdin := ls\<rparr>))"
      by (rule Suc.IH)
    also have "\<dots> \<le> Suc (pending (st\<lparr>stdin := ls\<rparr>))"
      by (rule stdin_reader_line_pending)
    also have "\<dots> = pending st"
      by (simp add: pending_def ls)
    finally show ?thesis using True ls by simp
  qed
qed

lemma yield_pending: "pending (yield E st) \<le> pending st"
proof (cases "sched st")
  case Nil
  then show ?thesis by (simp add: yield_def)
next
  case (Cons n ns)
  have "pending (stdin_reader E n (st\<lparr>sched := ns\<rparr>)) \<le> pending (st\<lparr>sched := ns\<rparr>)"
    by (rule stdin_reader_pending)
  then show ?thesis using Cons by (simp add: yield_def pending_def)
qed

lemma queue_get_pending:
  "queue_get E st = (Some cmd, st') \<Longrightarrow> pending st' < pending st"
proof (induction E st rule: queue_get.induct)
  case (1 E st)
  show ?case
  proof (cases "command_queue st")
    case (Cons c q)
    then have "queue_get E st = (Some c, st\<lparr>command_queue := q\<rparr>)"
      by (subst queue_get.simps) simp
    with "1.prems" Cons show ?thesis by (auto simp: pending_def)
  next
    case Nil
    then have "queue_get E st =
        (if reader_alive st \<and> stdin st \<noteq> [] then queue_get E (stdin_reader E 1 st)
         else (None, st))"
      by (subst queue_get.simps) simp
    with "1.prems" have go: "reader_alive st \<and> stdin st \<noteq> []"
      and rec: "queue_get E (stdin_reader E 1 st) = (Some cmd, st')"
      by (auto split: if_splits)
    have "pending st' < pending (stdin_reader E 1 st)"
      using "1.IH" Nil go rec by simp
    also have "\<dots> \<le> pending st" by (rule stdin_reader_pending)
    finally show ?thesis .
  qed
qed

lemma for_results_pending:
  "pending (snd (for_results E ps st)) \<le> pending st"
proof (induction E ps st rule: for_results.induct)
  case (3 E r rest st)
  have y: "pending (yield E st) \<le> pending st" by (rule yield_pending)
  show ?case
  proof (cases "interrupted (yield E st)")
    case True
    then show ?thesis using y by (simp add: Let_def)
  next
    case False
    show ?thesis
    proof (cases r)
      case (Unconvertible e)
      then show ?thesis using False y by (simp add: Let_def)
    next
      case (Samples audio)
      show ?thesis
      proof (cases "write_audio_chunk (float32_to_int16_pcm audio) (yield E st)")
        case (Inl e)
        then show ?thesis using False Samples y by (simp add: Let_def)
      next
        case (Inr st2)
        then have "pending st2 = pending (yield E st)"
          by (auto simp: write_audio_chunk_def pending_def split: sum.splits)
        moreover have "pending (snd (for_results E rest st2)) \<le> pending st2"
          using "3.IH" False Samples Inr by simp
        ultimately show ?thesis using False Samples Inr y by (simp add: Let_def)
      qed
    qed
  qed
qed simp_all

lemma handle_generate_pending:
  "pending (handle_generate E m text voice st) \<le> pending st"
proof (cases "strip text = []")
  case True
  then show ?thesis by (simp add: handle_generate_def write_end_marker_def pending_def)
next
  case False
  let ?st0 = "st\<lparr>generate_calls := generate_calls st @ [(text, voice)]\<rparr>"
  obtain x st1 where r: "for_results E (generate m text voice (Some True)) ?st0 = (x, st1)"
    by (cases "for_results E (generate m text voice (Some True)) ?st0")
  have "pending st1 \<le> pending ?st0"
    using for_results_pending [of E "generate m text voice (Some True)" ?st0] r by simp
  moreover have "pending ?st0 = pending st" by (simp add: pending_def)
  moreover have "pending (yield E st1) \<le> pending st1" by (rule yield_pending)
  ultimately show ?thesis using False r
    by (cases x) (simp_all add: handle_generate_def write_end_marker_def log_msg_def pending_def)
qed

text \<open>
  The loop ends in one of three ways: \<open>break\<close> on the quit command, the main thread
  waiting forever on an empty queue that nobody fills any more, or an exception that
  nothing catches (\<open>cmd.get\<close> on a value that is no dict, \<open>text.strip()\<close> on a text
  that is no string).
\<close>

datatype stop = Break | Hang | Uncaught

text \<open>
  The body of \<open>while True\<close> after the \<open>get\<close>: the dispatch on the command. The result
  \<open>None\<close> is the next turn of the loop.
\<close>

definition dispatch :: "env \<Rightarrow> model \<Rightarrow> pystr \<Rightarrow> json \<Rightarrow> sys \<Rightarrow> stop option \<times> sys" where
  "dispatch E m voice cmd st =
     (case dict_get cmd (str ''cmd'') of
        Inl e \<Rightarrow> (Some Uncaught, st)
      | Inr c \<Rightarrow>
          if c = Some (JStr (str ''generate'')) then
            (let st1 = (yield E st)\<lparr>interrupted := False\<rparr> in
             case dict_get cmd (str ''text'') of
               Inl e \<Rightarrow> (Some Uncaught, st1)
             | Inr t \<Rightarrow>
                 (case (case t of None \<Rightarrow> JStr [] | Some v \<Rightarrow> v) of
                    JStr text \<Rightarrow> (None, handle_generate E m text voice st1)
                  | _ \<Rightarrow> (Some Uncaught, st1)))
          else if c = Some (JStr (str ''quit'')) then (Some Break, st)
          else (None, log_msg (str ''ERROR: Unknown command: '' @ format_value E c)
                        (yield E st)))"

lemma dispatch_pending: "pending (snd (dispatch E m voice cmd st)) \<le> pending st"
proof -
  have clear: "pending ((yield E st)\<lparr>interrupted := False\<rparr>) \<le> pending st"
    using yield_pending [of E st] by (simp add: pending_def)
  have gen: "pending (handle_generate E m tx voice ((yield E st)\<lparr>interrupted := False\<rparr>))
               \<le> pending st" for tx
    using handle_generate_pending [of E m tx voice "(yield E st)\<lparr>interrupted := False\<rparr>"] clear
    by simp
  have unknown: "pending (log_msg msg (yield E st)) \<le> pending st" for msg
    using yield_pending [of E st] by (simp add: log_msg_def pending_def)
  show ?thesis
    unfolding dispatch_def Let_def
    by (simp add: clear gen unknown split: sum.split option.split json.split)
qed

lemma next_turn_pending:
  assumes "(x, st1) = queue_get E (yield E st)" and "x = Some cmd"
    and "(y, st2) = dispatch E m voice cmd st1"
  shows "pending st2 < pending st"
proof -
  have get: "queue_get E (yield E st) = (Some cmd, st1)"
    using assms(1,2) by simp
  have "pending st2 = pending (snd (dispatch E m voice cmd st1))"
    using assms(3) by (simp add: prod_eq_iff)
  also have "\<dots> \<le> pending st1" by (rule dispatch_pending)
  also have "\<dots> < pending (yield E st)" using get by (rule queue_get_pending)
  also have "\<dots> \<le> pending st" by (rule yield_pending)
  finally show ?thesis .
qed

function main_loop :: "env \<Rightarrow> model \<Rightarrow> pystr \<Rightarrow> sys \<Rightarrow> stop \<times> sys" where
  "main_loop E m voice st =
     (case queue_get E (yield E st) of
        (None, st1) \<Rightarrow> (Hang, st1)
      | (Some cmd, st1) \<Rightarrow>
          (case dispatch E m voice cmd st1 of
             (Some s, st2) \<Rightarrow> (s, st2)
           | (None, st2) \<Rightarrow> main_loop E m voice st2))"
  by pat_completeness auto
termination
  by (relation "measure (\<lambda>(E, m, voice, st). pending st)")
     (auto intro: next_turn_pending)

declare main_loop.simps [simp del]

subsection \<open>Startup: \<open>main\<close>\<close>

definition DEFAULT_MODEL :: pystr where
  "DEFAULT_MODEL = str ''prince-canuma/Kokoro-82M''"

definition DEFAULT_VOICE :: pystr where
  "DEFAULT_VOICE = str ''af_heart''"

text \<open>The warm-up loop \<open>for _ in model.generate(...): pass\<close>, with the exception that left it.\<close>

fun warm_up :: "pull list \<Rightarrow> pystr option" where
  "warm_up [] = None"
| "warm_up (Raise e # rest) = Some e"
| "warm_up (Yield r # rest) = warm_up rest"

text \<open>
  How the process ends: with an exit code, never (the main thread waits forever), or by
  an exception that nothing catches.
\<close>

datatype outcome = Exited nat | Blocked | Crashed

text \<open>The command line: \<open>sys.argv[1]\<close> and \<open>sys.argv[2]\<close>, with their defaults.\<close>

definition model_id_of :: "pystr list \<Rightarrow> pystr" where
  "model_id_of argv = (if 1 < length argv then argv ! 1 else DEFAULT_MODEL)"

definition voice_of :: "pystr list \<Rightarrow> pystr" where
  "voice_of argv = (if 2 < length argv then argv ! 2 else DEFAULT_VOICE)"

text \<open>
  \<open>main\<close> up to the start of the reader thread: load the model, warm up, write
  \<open>READY\<close>, create the event and the queue. \<open>Inl\<close> is \<open>sys.exit(1)\<close> after a failed
  load; \<open>Inr\<close> carries the model and the voice into the command loop.
\<close>

definition startup :: "env \<Rightarrow> pystr list \<Rightarrow> sys \<Rightarrow> sys + model \<times> pystr \<times> sys" where
  "startup E argv st =
     (let model_id = model_id_of argv;
          voice = voice_of argv;
          st1 = log_msg (str ''Loading model: '' @ model_id) st
      in case load_model E model_id of
           Inl e \<Rightarrow> Inl (log_msg (str ''ERROR: Failed to load model: '' @ e) st1)
         | Inr m \<Rightarrow>
             (let st2 = log_msg (str ''Model loaded (sample_rate=''
                                  @ format_int E (sample_rate m) @ str '')'') st1;
                  st3 = log_msg (str ''Warming up...'') st2;
                  st4 = st3\<lparr>generate_calls := generate_calls st3 @ [(str ''Hello.'', voice)]\<rparr>;
                  st5 = (case warm_up (generate m (str ''Hello.'') voice None) of
                           None \<Rightarrow> log_msg (str ''Warm-up done'') st4
                         | Some e \<Rightarrow> log_msg (str ''WARNING: Warm-up failed: '' @ e) st4);
                  st6 = st5\<lparr>stderr := stderr st5 @ [str ''READY'' @ nl]\<rparr>
              in Inr (m, voice, st6\<lparr>interrupted := False, command_queue := []\<rparr>)))"

definition main :: "env \<Rightarrow> pystr list \<Rightarrow> sys \<Rightarrow> outcome \<times> sys" where
  "main E argv st =
     (case startup E argv st of
        Inl st1 \<Rightarrow> (Exited 1, st1)
      | Inr (m, voice, st1) \<Rightarrow>
          (case main_loop E m voice st1 of
             (Break, st2) \<Rightarrow> (Exited 0, log_msg (str ''Shutting down'') (yield E st2))
           | (Hang, st2) \<Rightarrow> (Blocked, st2)
           | (Uncaught, st2) \<Rightarrow> (Crashed, st2)))"

text \<open>How many times the line \<open>READY\<close> has been written to stderr.\<close>

definition ready_count :: "sys \<Rightarrow> nat" where
  "ready_count st = count_list (stderr st) (str ''READY'' @ nl)"

subsection \<open>The commands in their order of arrival\<close>

text \<open>
  \<open>reader_puts\<close> lists what the reader thread puts on the queue for the lines it has
  still to read, up to the line on which it dies; \<open>arrivals\<close> is the queue followed by
  these: every command the main thread will ever get, in the order in which it gets them.
  It is the queue as the reader thread leaves it when it reads all of stdin undisturbed
  (\<open>arrivals_run\<close> below).
\<close>

fun reader_puts :: "env \<Rightarrow> pystr list \<Rightarrow> json list" where
  "reader_puts E [] = []"
| "reader_puts E (raw # lines) =
     (let line = strip raw in
      if line = [] then reader_puts E lines
      else case json_loads E line of
             Inl e \<Rightarrow> reader_puts E lines
           | Inr cmd \<Rightarrow>
               (case dict_get cmd (str ''cmd'') of
                  Inl e \<Rightarrow> []
                | Inr c \<Rightarrow>
                    if c = Some (JStr (str ''interrupt'')) then reader_puts E lines
                    else cmd # reader_puts E lines))"

definition arrivals :: "env \<Rightarrow> sys \<Rightarrow> json list" where
  "arrivals E st = command_queue st @ (if reader_alive st then reader_puts E (stdin st) else [])"

text \<open>
  The texts of the generate commands that the command loop serves, in order. The loop
  stops at the quit command and at a command on which it raises.
\<close>

fun generations :: "json list \<Rightarrow> pystr list" where
  "generations [] = []"
| "generations (cmd # rest) =
     (case dict_get cmd (str ''cmd'') of
        Inl e \<Rightarrow> []
      | Inr c \<Rightarrow>
          if c = Some (JStr (str ''generate'')) then
            (case dict_get cmd (str ''text'') of
               Inl e \<Rightarrow> []
             | Inr t \<Rightarrow>
                 (case (case t of None \<Rightarrow> JStr [] | Some v \<Rightarrow> v) of
                    JStr text \<Rightarrow> text # generations rest
                  | _ \<Rightarrow> []))
          else if c = Some (JStr (str ''quit'')) then []
          else generations rest)"

text \<open>
  The bytes of one generation that wrote \<open>n\<close> chunks: their data frames, then the end
  marker.
\<close>

definition generation_bytes :: "model \<Rightarrow> pystr \<Rightarrow> pystr \<Rightarrow> nat \<Rightarrow> byte list" where
  "generation_bytes m voice text n = frames (take n (writable (results_of m text voice))) @ end_marker"

subsection \<open>Concrete inputs\<close>

text \<open>
  A small environment for running the model on concrete inputs: \<open>demo_loads\<close> answers
  as \<open>json.loads\<close> does on the lines it knows (\<open>42\<close> is valid JSON, a number) and
  rejects every other line;
  \<open>five_chunks\<close> is a model whose stream has five chunks of one sample each;
  \<open>idle\<close> is the process with nothing read and nothing written.
\<close>

definition interrupt_line :: pystr where
  \<open>interrupt_line = str ''{"cmd": "interrupt"}''\<close>

definition quit_line :: pystr where
  \<open>quit_line = str ''{"cmd": "quit"}''\<close>

definition generate_line :: "string \<Rightarrow> pystr" where
  \<open>generate_line t = str (''{"cmd": "generate", "text": "'' @ t @ ''"}'')\<close>

definition generate_no_text_line :: pystr where
  \<open>generate_no_text_line = str ''{"cmd": "generate"}''\<close>

definition demo_loads :: "pystr \<Rightarrow> pystr + json" where
  "demo_loads line =
     (if line = interrupt_line then Inr (JObj [(str ''cmd'', JStr (str ''interrupt''))])
      else if line = quit_line then Inr (JObj [(str ''cmd'', JStr (str ''quit''))])
      else if line = generate_line ''A''
        then Inr (JObj [(str ''cmd'', JStr (str ''generate'')), (str ''text'', JStr (str ''A''))])
      else if line = generate_line ''B''
        then Inr (JObj [(str ''cmd'', JStr (str ''generate'')), (str ''text'', JStr (str ''B''))])
      else if line = generate_no_text_line
        then Inr (JObj [(str ''cmd'', JStr (str ''generate''))])
      else if line = str ''42'' then Inr (JInt 42)
      else Inl (str ''Expecting value''))"

definition five_chunks :: model where
  "five_chunks =
     \<lparr>sample_rate = 24000,
      generate = (\<lambda>text voice stream. map (\<lambda>x. Yield (Samples [f32 x])) [0, 1, - 1, 2, - 5])\<rparr>"

definition demo_env :: env where
  "demo_env =
     \<lparr>load_model = (\<lambda>model_id. Inr five_chunks),
      json_loads = demo_loads,
      format_value = (\<lambda>v. str ''None''),
      format_int = (\<lambda>n. str ''24000'')\<rparr>"

definition idle :: sys where
  "idle =
     \<lparr>stdin = [], reader_alive = True, interrupted = False, command_queue = [],
      stdout = [], stderr = [], generate_calls = [], sched = []\<rparr>"

text \<open>
  \<open>empty_chunk\<close> is a model whose stream is one chunk of no samples.
  \<open>interrupted_after_two\<close> is a process in which an interrupt command is waiting on
  stdin and the reader thread gets to it after the main thread's second test of the event.
\<close>

definition empty_chunk :: model where
  "empty_chunk = \<lparr>sample_rate = 24000, generate = (\<lambda>text voice stream. [Yield (Samples [])])\<rparr>"

text \<open>
  The stream of \<open>raises_after_one\<close> yields a chunk and then raises; the stream of
  \<open>silence_then_sound\<close> yields an empty chunk and then a chunk of one sample.
\<close>

definition raises_after_one :: model where
  "raises_after_one =
     \<lparr>sample_rate = 24000,
      generate = (\<lambda>text voice stream.
        [Yield (Samples [f32 1]), Raise (str ''boom''), Yield (Samples [f32 0])])\<rparr>"

definition silence_then_sound :: model where
  "silence_then_sound =
     \<lparr>sample_rate = 24000,
      generate = (\<lambda>text voice stream. [Yield (Samples []), Yield (Samples [f32 1])])\<rparr>"

definition interrupted_after_two :: sys where
  "interrupted_after_two = idle\<lparr>stdin := [interrupt_line], sched := [0, 0, 1]\<rparr>"

text \<open>
  \<open>two_generations\<close> is a process that is sent two generate commands, an interrupt and
  a quit. The reader thread has queued both generate commands before the first is served,
  and reads the interrupt after the first chunk of the first generation.
\<close>

definition two_generations :: sys where
  "two_generations =
     idle\<lparr>stdin := [generate_line ''A'', generate_line ''B'', interrupt_line, quit_line],
          sched := [2, 0, 0, 1]\<rparr>"

text \<open>
  \<open>b_dequeued\<close> is \<open>two_generations\<close> at the moment the second generate command has
  been taken from the queue: the event is still set by the interrupt that stopped the first
  generation. In \<open>number_then_quit\<close> the host sends the line \<open>42\<close> and then a quit
  command, in \<open>garbage_then_quit\<close> a line that is not JSON and then a quit command.
\<close>

definition b_dequeued :: sys where
  "b_dequeued =
     idle\<lparr>stdin := [quit_line], interrupted := True,
          stdout := [0, 0, 0, 2, 0, 0,  0, 0, 0, 0],
          generate_calls := [(str ''A'', DEFAULT_VOICE)]\<rparr>"

definition number_then_quit :: sys where
  "number_then_quit = idle\<lparr>stdin := [str ''42'', quit_line]\<rparr>"

definition garbage_then_quit :: sys where
  "garbage_then_quit = idle\<lparr>stdin := [str ''garbage'', quit_line]\<rparr>"

text \<open>
  \<open>no_model_env\<close> is an environment in which \<open>load_model\<close> raises; in
  \<open>cold_env\<close> it returns \<open>cold_model\<close>, whose warm-up generation raises.
\<close>

definition no_model_env :: env where
  "no_model_env = demo_env\<lparr>load_model := (\<lambda>model_id. Inl (str ''not found''))\<rparr>"

definition cold_model :: model where
  "cold_model =
     \<lparr>sample_rate = 24000,
      generate = (\<lambda>text voice stream. if stream = None then [Raise (str ''cold'')] else [])\<rparr>"

definition cold_env :: env where
  "cold_env = demo_env\<lparr>load_model := (\<lambda>model_id. Inr cold_model)\<rparr>"

section \<open>Properties\<close>

subsection \<open>The PCM encoder\<close>

lemma pow2_pos: "0 < pow2 e"
  by (simp add: pow2_def)

lemma pow2_add: "pow2 (e + int k) = pow2 e * 2 ^ k"
proof (cases "0 \<le> e")
  case True
  then have "nat (e + int k) = nat e + k" by simp
  then show ?thesis using True by (simp add: pow2_def power_add)
next
  case False
  show ?thesis
  proof (cases "0 \<le> e + int k")
    case True
    then have "k = nat (e + int k) + nat (- e)" using False by simp
    then have "(2::real) ^ k = 2 ^ nat (e + int k) * 2 ^ nat (- e)"
      by (metis power_add)
    then show ?thesis using True False by (simp add: pow2_def)
  next
    case F2: False
    then have "nat (- e) = nat (- (e + int k)) + k" using False by simp
    then have "(2::real) ^ nat (- e) = 2 ^ nat (- (e + int k)) * 2 ^ k"
      by (metis power_add)
    then show ?thesis using F2 False by (simp add: pow2_def)
  qed
qed

lemma excess_bounds:
  "M < 2 ^ (24 + excess M) \<and> (0 < excess M \<longrightarrow> 2 ^ (23 + excess M) \<le> M)"
proof (induction M rule: excess.induct)
  case (1 M)
  show ?case
  proof (cases "M < 2 ^ 24")
    case True
    then show ?thesis by (subst excess.simps, subst (2) excess.simps, subst (3) excess.simps) simp
  next
    case False
    let ?k = "excess (M div 2)"
    have ek: "excess M = Suc ?k" using False by (subst excess.simps) simp
    have ih: "M div 2 < 2 ^ (24 + ?k)" "0 < ?k \<longrightarrow> 2 ^ (23 + ?k) \<le> M div 2"
      using 1 False by auto
    have "M < 2 * (M div 2 + 1)" by simp
    also have "\<dots> \<le> 2 * 2 ^ (24 + ?k)" using ih(1) by simp
    also have "\<dots> = 2 ^ (24 + Suc ?k)" by (metis add_Suc_right power_Suc)
    finally have up: "M < 2 ^ (24 + Suc ?k)" .
    have lo: "2 ^ (23 + Suc ?k) \<le> M"
    proof (cases "0 < ?k")
      case True
      then have "2 ^ (23 + ?k) \<le> M div 2" using ih(2) by simp
      then have "2 * 2 ^ (23 + ?k) \<le> M" by simp
      moreover have "(2::nat) * 2 ^ (23 + ?k) = 2 ^ (23 + Suc ?k)"
        by (metis add_Suc_right power_Suc)
      ultimately show ?thesis by simp
    next
      case F: False
      then have "?k = 0" by simp
      then show ?thesis using False by simp
    qed
    show ?thesis unfolding ek using up lo by blast
  qed
qed

lemma round_half_even_error:
  assumes "0 < k"
  shows "\<bar>int (round_half_even M k * 2 ^ k) - int M\<bar> \<le> 2 ^ (k - 1)"
proof -
  define q where "q = M div 2 ^ k"
  define r where "r = M mod 2 ^ k"
  define h where "h = (2::nat) ^ (k - 1)"
  have M: "M = q * 2 ^ k + r" unfolding q_def r_def by (metis div_mult_mod_eq)
  have r: "r < 2 ^ k" by (simp add: r_def)
  have hk: "(2::nat) ^ k = 2 * h" using assms by (simp add: h_def power_eq_if)
  show ?thesis
  proof (cases "h < r \<or> (r = h \<and> odd q)")
    case True
    then have R: "round_half_even M k = q + 1"
      using assms by (auto simp: round_half_even_def Let_def q_def r_def h_def)
    have e1: "int ((q + 1) * 2 ^ k) - int M = int (2 * h) - int r"
      using M hk by (simp add: algebra_simps)
    have "h \<le> r" using True by auto
    moreover have "r < 2 * h" using r hk by simp
    ultimately have "\<bar>int (2 * h) - int r\<bar> \<le> int h" by linarith
    then show ?thesis unfolding R e1 by (simp add: h_def)
  next
    case False
    then have R: "round_half_even M k = q"
      using assms by (auto simp: round_half_even_def Let_def q_def r_def h_def)
    have e1: "int (q * 2 ^ k) - int M = - int r" using M by simp
    have "r \<le> h" using False by auto
    then have "\<bar>- int r\<bar> \<le> int h" by linarith
    then show ?thesis unfolding R e1 by (simp add: h_def)
  qed
qed

lemma round_half_even_le:
  assumes "M < 2 ^ (24 + k)"
  shows "round_half_even M k \<le> 2 ^ 24"
proof (cases "k = 0")
  case True
  then show ?thesis using assms by (simp add: round_half_even_def)
next
  case False
  have "M div 2 ^ k < 2 ^ 24"
    using assms by (simp add: less_mult_imp_div_less power_add)
  then show ?thesis using False by (auto simp: round_half_even_def Let_def)
qed

lemma toward_zero_spec: "toward_zero x = spec_truncate x"
  by (simp add: toward_zero_def spec_truncate_def ceiling_def)


lemma valof_abs: "\<bar>valof s m e\<bar> = real m * pow2 e"
  using pow2_pos [of e] by (simp add: valof_def abs_mult)

lemma valof_f32: "valof (n < 0) (nat \<bar>n\<bar>) 0 = real_of_int n"
  by (simp add: valof_def pow2_def)

lemma less32_f32:
  "less32 (Finite s m e) (f32 n) = (valof s m e < real_of_int n)"
  "less32 (f32 n) (Finite s m e) = (real_of_int n < valof s m e)"
  "less32 (f32 n) (f32 k) = (n < k)"
  by (simp_all add: f32_def valof_f32)

lemma f32_not_nan: "f32 n \<noteq> NaN" "NaN \<noteq> f32 n"
  by (simp_all add: f32_def)

lemma np_clip_finite:
  "np_clip (Finite s m e) (f32 (- 1)) (f32 1)
     = (if valof s m e < - 1 then f32 (- 1)
        else if 1 < valof s m e then f32 1 else Finite s m e)"
  by (simp add: np_clip_def np_maximum_def np_minimum_def less32_f32 f32_not_nan)

lemma np_clip_infinity:
  "np_clip (Infinity s) (f32 (- 1)) (f32 1)
     = (if s then f32 (- 1) else f32 1)"
  by (simp add: np_clip_def np_maximum_def np_minimum_def f32_def valof_def pow2_def)


lemma np_clip_nan: "np_clip NaN lo hi = NaN"
  by (simp add: np_clip_def np_maximum_def np_minimum_def)

lemma rounding_error:
  "\<bar>real (round_half_even M (excess M) * 2 ^ excess M) - real M\<bar> \<le> real M / 2 ^ 24"
proof (cases "excess M = 0")
  case True
  then show ?thesis by (simp add: round_half_even_def)
next
  case False
  define k where "k = excess M"
  have k: "0 < k" using False by (simp add: k_def)
  have lo: "2 ^ (23 + k) \<le> M" using excess_bounds [of M] k by (simp add: k_def)
  have "\<bar>int (round_half_even M k * 2 ^ k) - int M\<bar> \<le> 2 ^ (k - 1)"
    using round_half_even_error [OF k] .
  then have "\<bar>real_of_int (int (round_half_even M k * 2 ^ k) - int M)\<bar>
               \<le> real_of_int (2 ^ (k - 1))"
    by (metis of_int_abs of_int_le_iff)
  then have e: "\<bar>real (round_half_even M k * 2 ^ k) - real M\<bar> \<le> 2 ^ (k - 1)"
    by simp
  obtain j where j: "k = Suc j" using k by (cases k) auto
  have "(2::real) ^ (23 + k) = 2 ^ 24 * 2 ^ (k - 1)"
    unfolding j by (simp add: power_add)
  moreover have "(2::real) ^ (23 + k) \<le> real M"
    using lo by (metis of_nat_le_iff of_nat_numeral of_nat_power)
  ultimately have "(2::real) ^ (k - 1) \<le> real M / 2 ^ 24"
    by (simp add: field_simps)
  then show ?thesis using e unfolding k_def by linarith
qed

lemma pow2_powi: "pow2 e = 2 powi e"
  by (simp add: pow2_def power_int_def power_one_over inverse_eq_divide)

lemma pow2_plus: "pow2 (a + b) = pow2 a * pow2 b"
  by (simp add: pow2_powi power_int_add)

lemma pow2_below:
  assumes "E < int k"
  shows "pow2 E * 2 \<le> 2 ^ k"
proof (cases "0 \<le> E")
  case True
  then have "Suc (nat E) \<le> k" using assms by simp
  then have "(2::real) ^ Suc (nat E) \<le> 2 ^ k" by (intro power_increasing) simp_all
  then show ?thesis using True by (simp add: pow2_def)
next
  case False
  then obtain j where j: "nat (- E) = Suc j" by (cases "nat (- E)") auto
  have "pow2 E * 2 = 1 / 2 ^ j" using False by (simp add: pow2_def j)
  also have "\<dots> \<le> 1" by simp
  also have "\<dots> \<le> 2 ^ k" by simp
  finally show ?thesis .
qed

lemma pow2_above:
  assumes "int k \<le> E"
  shows "pow2 E = real (2 ^ nat (E - int k)) * 2 ^ k"
proof -
  have "E = (E - int k) + int k" by simp
  then have "pow2 E = pow2 (E - int k) * 2 ^ k" by (metis pow2_add)
  then show ?thesis using assms by (simp add: pow2_def)
qed

lemma round_half_even_nearer:
  assumes "0 < k"
  shows "\<bar>int (round_half_even M k * 2 ^ k) - int M\<bar> \<le> int (M mod 2 ^ k)
       \<and> \<bar>int (round_half_even M k * 2 ^ k) - int M\<bar> \<le> 2 ^ k - int (M mod 2 ^ k)"
proof -
  define q where "q = M div 2 ^ k"
  define r where "r = M mod 2 ^ k"
  define h where "h = (2::nat) ^ (k - 1)"
  have M: "M = q * 2 ^ k + r" unfolding q_def r_def by (metis div_mult_mod_eq)
  have r: "r < 2 ^ k" by (simp add: r_def)
  have hk: "(2::nat) ^ k = 2 * h" using assms by (simp add: h_def power_eq_if)
  have hk': "(2::int) ^ k = 2 * int h" using hk by (metis of_nat_numeral of_nat_power of_nat_mult)
  show ?thesis
  proof (cases "h < r \<or> (r = h \<and> odd q)")
    case True
    then have R: "round_half_even M k = q + 1"
      using assms by (auto simp: round_half_even_def Let_def q_def r_def h_def)
    have e1: "int ((q + 1) * 2 ^ k) - int M = int (2 * h) - int r"
      using M hk by (simp add: algebra_simps)
    have "h \<le> r" using True by auto
    moreover have "r < 2 * h" using r hk by simp
    ultimately have c: "\<bar>int (2 * h) - int r\<bar> \<le> int r"
      "\<bar>int (2 * h) - int r\<bar> \<le> 2 ^ k - int r"
      unfolding hk' by linarith+
    show ?thesis unfolding R e1 r_def [symmetric] using c by blast
  next
    case False
    then have R: "round_half_even M k = q"
      using assms by (auto simp: round_half_even_def Let_def q_def r_def h_def)
    have e1: "int (q * 2 ^ k) - int M = - int r" using M by simp
    have "r \<le> h" using False by auto
    then have c: "\<bar>- int r\<bar> \<le> int r" "\<bar>- int r\<bar> \<le> 2 ^ k - int r"
      unfolding hk' by linarith+
    show ?thesis unfolding R e1 r_def [symmetric] using c by blast
  qed
qed

lemma no_float_between:
  assumes k: "0 < k" and lo: "2 ^ 23 \<le> q" and N: "N < (2::nat) ^ 24"
    and a: "real q * 2 ^ k < real N * pow2 E"
  shows "real (q + 1) * 2 ^ k \<le> real N * pow2 E"
proof (cases "E < int k")
  case True
  have "real N * pow2 E * 2 \<le> 2 ^ 24 * (pow2 E * 2)"
    using N pow2_pos [of E] by simp
  also have "\<dots> \<le> 2 ^ 24 * 2 ^ k" using pow2_below [OF True] by simp
  finally have "real N * pow2 E \<le> 2 ^ 23 * 2 ^ k" by simp
  moreover have "(2::real) ^ 23 * 2 ^ k \<le> real q * 2 ^ k"
  proof -
    have "(2::real) ^ 23 \<le> real q" using lo by (metis of_nat_le_iff of_nat_numeral of_nat_power)
    then show ?thesis by (simp add: mult_right_mono)
  qed
  ultimately show ?thesis using a by linarith
next
  case False
  define j where "j = N * 2 ^ nat (E - int k)"
  have z: "real N * pow2 E = real j * 2 ^ k"
    using pow2_above [of k E] False by (simp add: j_def)
  have "real q * 2 ^ k < real j * 2 ^ k" using a z by simp
  then have "real q < real j" by simp
  then have "q + 1 \<le> j" by simp
  then have "real (q + 1) \<le> real j" by (simp only: of_nat_le_iff)
  then have "real (q + 1) * 2 ^ k \<le> real j * 2 ^ k" by (simp add: mult_right_mono)
  then show ?thesis using z by simp
qed

lemma nearest_24:
  assumes N: "N < (2::nat) ^ 24"
  shows "\<bar>real (round_half_even M (excess M) * 2 ^ excess M) - real M\<bar>
           \<le> \<bar>real N * pow2 E - real M\<bar>"
proof (cases "excess M = 0")
  case True
  then show ?thesis by (simp add: round_half_even_def)
next
  case False
  define k where "k = excess M"
  define q where "q = M div 2 ^ k"
  define r where "r = M mod 2 ^ k"
  define d where "d = \<bar>real (round_half_even M k * 2 ^ k) - real M\<bar>"
  define z where "z = real N * pow2 E"
  have k: "0 < k" using False by (simp add: k_def)
  have M: "M = q * 2 ^ k + r" unfolding q_def r_def by (metis div_mult_mod_eq)
  have Mr: "real M = real q * 2 ^ k + real r" by (subst M) simp
  have "2 ^ (23 + k) \<le> M" using excess_bounds [of M] k by (simp add: k_def)
  then have "2 ^ 23 * 2 ^ k \<le> M" by (simp add: power_add)
  then have "2 ^ 23 \<le> M div 2 ^ k" by (simp add: less_eq_div_iff_mult_less_eq)
  then have q: "2 ^ 23 \<le> q" by (simp add: q_def)
  have "\<bar>int (round_half_even M k * 2 ^ k) - int M\<bar> \<le> int r
       \<and> \<bar>int (round_half_even M k * 2 ^ k) - int M\<bar> \<le> 2 ^ k - int r"
    using round_half_even_nearer [OF k, of M] by (simp add: r_def)
  then have "real_of_int \<bar>int (round_half_even M k * 2 ^ k) - int M\<bar> \<le> real_of_int (int r)
     \<and> real_of_int \<bar>int (round_half_even M k * 2 ^ k) - int M\<bar> \<le> real_of_int (2 ^ k - int r)"
    by (simp only: of_int_le_iff)
  then have d: "d \<le> real r" "d \<le> 2 ^ k - real r" by (simp_all add: d_def)
  have "d \<le> \<bar>z - real M\<bar>"
  proof (cases "real q * 2 ^ k < z")
    case True
    then have "real (q + 1) * 2 ^ k \<le> z"
      unfolding z_def by (rule no_float_between [OF k q N])
    then have "2 ^ k - real r \<le> z - real M" unfolding Mr by (simp add: algebra_simps)
    then show ?thesis using d(2) by linarith
  next
    case False
    then have "real r \<le> real M - z" unfolding Mr by simp
    then show ?thesis using d(1) by linarith
  qed
  then show ?thesis by (simp add: d_def z_def k_def)
qed


lemma mul32_value:
  assumes "real m * pow2 e \<le> 1"
  shows "\<exists>m' e'. mul32 (Finite s m e) 32767 = Finite s m' e' \<and> m' < 2 ^ 24
           \<and> real m' * pow2 e'
               = real (round_half_even (m * 32767) (excess (m * 32767)) * 2 ^ excess (m * 32767))
                 * pow2 e"
proof -
  define M where "M = m * 32767"
  define k where "k = excess M"
  define R where "R = round_half_even M k"
  have A: "\<bar>real (R * 2 ^ k) - real M\<bar> \<le> real M / 2 ^ 24"
    using rounding_error [of M] by (simp add: R_def k_def)
  have B: "R \<le> 2 ^ 24"
    using round_half_even_le [of M k] excess_bounds [of M] by (simp add: R_def k_def)
  have val: "real R * pow2 (e + int k) = real (R * 2 ^ k) * pow2 e"
    by (simp add: pow2_add)
  have Me: "real M * pow2 e \<le> 32767"
    using assms by (simp add: M_def)
  have "real (R * 2 ^ k) \<le> real M + real M / 2 ^ 24" using A by linarith
  then have "real (R * 2 ^ k) * pow2 e \<le> (real M + real M / 2 ^ 24) * pow2 e"
    using pow2_pos [of e] by (simp add: mult_right_mono)
  also have "\<dots> = (real M * pow2 e) * (1 + 1 / 2 ^ 24)" by (simp add: algebra_simps)
  also have "\<dots> \<le> 32767 * (1 + 1 / 2 ^ 24)" using Me by (intro mult_right_mono) simp_all
  finally have "real (R * 2 ^ k) * pow2 e \<le> 32767 * (1 + 1 / 2 ^ 24)" .
  moreover have "(32767::real) * (1 + 1 / 2 ^ 24) < 32768" by simp
  ultimately have small: "real R * pow2 (e + int k) < 32768" unfolding val by linarith
  then have novf: "\<not> 2 ^ 128 \<le> real R * pow2 (e + int k)" by simp
  show ?thesis
  proof (cases "R = 2 ^ 24")
    case True
    have m: "mul32 (Finite s m e) 32767 = Finite s (2 ^ 23) (e + int k + 1)"
      using novf True
      by (simp add: mul32.simps Let_def M_def [symmetric] k_def [symmetric] R_def [symmetric])
    have "pow2 (e + int k + 1) = pow2 (e + int k) * 2"
      using pow2_add [of "e + int k" 1] by simp
    then have "real ((2::nat) ^ 23) * pow2 (e + int k + 1) = real (R * 2 ^ k) * pow2 e"
      using True by (simp add: pow2_add)
    then show ?thesis
      unfolding m M_def [symmetric] k_def [symmetric] R_def [symmetric]
      by (intro exI [of _ "2 ^ 23"] exI [of _ "e + int k + 1"]) simp
  next
    case False
    have m: "mul32 (Finite s m e) 32767 = Finite s R (e + int k)"
      using novf False
      by (simp add: mul32.simps Let_def M_def [symmetric] k_def [symmetric] R_def [symmetric])
    show ?thesis
      unfolding m M_def [symmetric] k_def [symmetric] R_def [symmetric]
      using B False val by (intro exI [of _ R] exI [of _ "e + int k"]) simp
  qed
qed

lemma mul32_clamped:
  assumes "real m * pow2 e \<le> 1"
  shows "\<exists>m' e'. mul32 (Finite s m e) 32767 = Finite s m' e' \<and> m' < 2 ^ 24
           \<and> \<bar>valof s m' e' - valof s m e * 32767\<bar> \<le> \<bar>valof s m e * 32767\<bar> / 2 ^ 24
           \<and> (\<forall>q. has_24_bits q \<longrightarrow>
                  \<bar>valof s m' e' - valof s m e * 32767\<bar> \<le> \<bar>q - valof s m e * 32767\<bar>)"
proof -
  define M where "M = m * 32767"
  define T where "T = round_half_even M (excess M) * 2 ^ excess M"
  define sg :: real where "sg = (if s then - 1 else 1)"
  define y where "y = valof s m e * 32767"
  have sg: "\<bar>sg\<bar> = 1" by (simp add: sg_def)
  obtain m' e' where p: "mul32 (Finite s m e) 32767 = Finite s m' e'" and m': "m' < 2 ^ 24"
    and v: "real m' * pow2 e' = real T * pow2 e"
    using mul32_value [OF assms, of s] unfolding T_def M_def by blast
  have y: "y = sg * (real M * pow2 e)" by (simp add: y_def valof_def sg_def M_def)
  have pv: "valof s m' e' = sg * (real T * pow2 e)"
    using v by (simp add: valof_def sg_def)
  have "valof s m' e' - y = sg * ((real T - real M) * pow2 e)"
    unfolding pv y by (simp add: algebra_simps)
  then have dist: "\<bar>valof s m' e' - y\<bar> = \<bar>real T - real M\<bar> * pow2 e"
    using sg pow2_pos [of e] by (simp add: abs_mult)
  have ay: "\<bar>y\<bar> = real M * pow2 e"
    unfolding y using sg pow2_pos [of e] by (simp add: abs_mult)
  have "\<bar>real T - real M\<bar> * pow2 e \<le> (real M / 2 ^ 24) * pow2 e"
    using rounding_error [of M] pow2_pos [of e] unfolding T_def by (simp add: mult_right_mono)
  then have err: "\<bar>valof s m' e' - y\<bar> \<le> \<bar>y\<bar> / 2 ^ 24"
    unfolding dist ay by simp
  have near: "\<bar>valof s m' e' - y\<bar> \<le> \<bar>q - y\<bar>" if "has_24_bits q" for q
  proof -
    from that obtain N E where N: "N < (2::nat) ^ 24" and q: "\<bar>q\<bar> = real N * pow2 E"
      unfolding has_24_bits_def by blast
    have "pow2 E = pow2 (E - e) * pow2 e" using pow2_plus [of "E - e" e] by simp
    then have "\<bar>q\<bar> - \<bar>y\<bar> = (real N * pow2 (E - e) - real M) * pow2 e"
      unfolding q ay by (simp add: algebra_simps)
    then have "\<bar>\<bar>q\<bar> - \<bar>y\<bar>\<bar> = \<bar>real N * pow2 (E - e) - real M\<bar> * pow2 e"
      using pow2_pos [of e] by (simp add: abs_mult)
    moreover have "\<bar>real T - real M\<bar> \<le> \<bar>real N * pow2 (E - e) - real M\<bar>"
      unfolding T_def by (rule nearest_24 [OF N])
    ultimately have "\<bar>valof s m' e' - y\<bar> \<le> \<bar>\<bar>q\<bar> - \<bar>y\<bar>\<bar>"
      unfolding dist using pow2_pos [of e] by (simp add: mult_right_mono)
    also have "\<dots> \<le> \<bar>q - y\<bar>" by (rule abs_triangle_ineq3)
    finally show ?thesis .
  qed
  show ?thesis using p m' err near unfolding y_def by blast
qed

lemma low_byte: "(ucast (word_of_int n :: 16 word) :: byte) = of_int (n mod 256)"
  by (simp add: ucast_down_wi is_down word_of_int_eq_iff take_bit_eq_mod)

lemma high_byte:
  "(ucast (drop_bit 8 (word_of_int n :: 16 word)) :: byte) = of_int (n div 256 mod 256)"
proof -
  have "n div 256 mod 256 = take_bit 8 (drop_bit 8 n)"
    by (simp add: take_bit_eq_mod drop_bit_eq_div)
  then show ?thesis
    by (simp only:) (rule bit_word_eqI, auto simp: bit_simps)
qed

lemma tobytes_spec: "tobytes (word_of_int n) = spec_le16 n"
  by (simp add: tobytes_def spec_le16_def low_byte high_byte)

lemma np_clip_clamps:
  "\<exists>sc mc ec. np_clip (Finite s m e) (f32 (- 1)) (f32 1) = Finite sc mc ec
      \<and> valof sc mc ec = spec_clamp (valof s m e) \<and> real mc * pow2 ec \<le> 1"
proof -
  consider (lo) "valof s m e < - 1" | (hi) "\<not> valof s m e < - 1" "1 < valof s m e"
    | (mid) "\<not> valof s m e < - 1" "\<not> 1 < valof s m e" by blast
  then show ?thesis
  proof cases
    case lo
    then have "np_clip (Finite s m e) (f32 (- 1)) (f32 1) = Finite True (Suc 0) 0"
      by (simp add: np_clip_finite) (simp add: f32_def)
    moreover have "valof True (Suc 0) 0 = spec_clamp (valof s m e)"
      using lo by (simp add: spec_clamp_def valof_def pow2_def)
    moreover have "real (Suc 0) * pow2 0 \<le> 1" by (simp add: pow2_def)
    ultimately show ?thesis by blast
  next
    case hi
    then have "np_clip (Finite s m e) (f32 (- 1)) (f32 1) = Finite False (Suc 0) 0"
      by (simp add: np_clip_finite) (simp add: f32_def)
    moreover have "valof False (Suc 0) 0 = spec_clamp (valof s m e)"
      using hi by (simp add: spec_clamp_def valof_def pow2_def)
    moreover have "real (Suc 0) * pow2 0 \<le> 1" by (simp add: pow2_def)
    ultimately show ?thesis by blast
  next
    case mid
    then have "\<bar>valof s m e\<bar> \<le> 1" by linarith
    then have "real m * pow2 e \<le> 1" by (simp add: valof_abs)
    then show ?thesis using mid
      by (intro exI [of _ s] exI [of _ m] exI [of _ e])
         (simp add: np_clip_finite spec_clamp_def)
  qed
qed

lemma spec_truncate_range:
  assumes "\<bar>p\<bar> < 32768"
  shows "- 32767 \<le> spec_truncate p \<and> spec_truncate p \<le> 32767"
proof -
  define n where "n = \<lfloor>\<bar>p\<bar>\<rfloor>"
  have "n < 32768" using assms by (simp add: n_def floor_less_iff)
  moreover have "0 \<le> n" by (simp add: n_def)
  moreover have "spec_truncate p = n \<or> spec_truncate p = - n"
    by (simp add: spec_truncate_def n_def)
  ultimately show ?thesis by linarith
qed

lemma encode_one_sample:
  "float32_to_int16_pcm [x] = tobytes (astype_int16 (mul32 (np_clip x (f32 (- 1)) (f32 1)) 32767))"
  by (simp add: float32_to_int16_pcm_def)

lemma encode_finite_sample:
  "\<exists>p. float32_to_int16_pcm [Finite s m e] = spec_le16 (spec_truncate p)
       \<and> \<bar>p - spec_clamp (valof s m e) * 32767\<bar> \<le> \<bar>spec_clamp (valof s m e) * 32767\<bar> / 2 ^ 24
       \<and> has_24_bits p
       \<and> \<not> (\<exists>q. has_24_bits q
               \<and> \<bar>q - spec_clamp (valof s m e) * 32767\<bar> < \<bar>p - spec_clamp (valof s m e) * 32767\<bar>)
       \<and> - 32767 \<le> spec_truncate p \<and> spec_truncate p \<le> 32767"
proof -
  obtain sc mc ec where
    c: "np_clip (Finite s m e) (f32 (- 1)) (f32 1) = Finite sc mc ec"
    and cv: "valof sc mc ec = spec_clamp (valof s m e)" and c1: "real mc * pow2 ec \<le> 1"
    using np_clip_clamps [of s m e] by blast
  obtain m' e' where p: "mul32 (Finite sc mc ec) 32767 = Finite sc m' e'" and m': "m' < 2 ^ 24"
    and err: "\<bar>valof sc m' e' - valof sc mc ec * 32767\<bar> \<le> \<bar>valof sc mc ec * 32767\<bar> / 2 ^ 24"
    and near: "\<forall>q. has_24_bits q \<longrightarrow>
                 \<bar>valof sc m' e' - valof sc mc ec * 32767\<bar> \<le> \<bar>q - valof sc mc ec * 32767\<bar>"
    using mul32_clamped [OF c1, of sc] by blast
  let ?p = "valof sc m' e'"
  have enc: "float32_to_int16_pcm [Finite s m e] = spec_le16 (spec_truncate ?p)"
    by (simp add: encode_one_sample c p toward_zero_spec tobytes_spec)
  have bits: "has_24_bits ?p"
    unfolding has_24_bits_def using m' valof_abs [of sc m' e'] by blast
  have "\<bar>valof sc mc ec * 32767\<bar> \<le> 32767"
    using c1 by (simp add: abs_mult valof_abs)
  moreover from this have "\<bar>valof sc mc ec * 32767\<bar> / 2 ^ 24 \<le> 32767 / 2 ^ 24"
    by (simp add: divide_right_mono)
  moreover have "(32767::real) + 32767 / 2 ^ 24 < 32768" by simp
  ultimately have "\<bar>?p\<bar> < 32768" using err by linarith
  then have rng: "- 32767 \<le> spec_truncate ?p \<and> spec_truncate ?p \<le> 32767"
    by (rule spec_truncate_range)
  have nearest: "\<not> (\<exists>q. has_24_bits q
      \<and> \<bar>q - valof sc mc ec * 32767\<bar> < \<bar>?p - valof sc mc ec * 32767\<bar>)"
    using near by (auto simp: not_less)
  show ?thesis using enc err bits nearest rng unfolding cv by blast
qed

lemma encode_samplewise:
  "float32_to_int16_pcm audio = concat (map (\<lambda>a. float32_to_int16_pcm [a]) audio)"
  by (induction audio) (simp_all add: float32_to_int16_pcm_def)

lemma length_float32_to_int16_pcm: "length (float32_to_int16_pcm audio) = 2 * length audio"
  by (induction audio) (simp_all add: float32_to_int16_pcm_def tobytes_def)

lemmas encoder_simps =
  float32_to_int16_pcm_def f32_def mul32.simps np_clip_def np_maximum_def np_minimum_def
  valof_def pow2_def excess.simps round_half_even_def Let_def toward_zero_def tobytes_def

lemma encode_demo:
  "float32_to_int16_pcm [f32 0] = [0, 0]"
  "float32_to_int16_pcm [f32 1] = [0xFF, 0x7F]"
  "float32_to_int16_pcm [f32 (- 1)] = [0x01, 0x80]"
  "float32_to_int16_pcm [f32 2] = [0xFF, 0x7F]"
  "float32_to_int16_pcm [f32 (- 5)] = [0x01, 0x80]"
  by (simp_all add: encoder_simps)

lemma encode_infinity:
  "float32_to_int16_pcm [Infinity False] = [0xFF, 0x7F]"
  "float32_to_int16_pcm [Infinity True] = [0x01, 0x80]"
  by (simp_all add: encoder_simps)

lemma encode_fractions:
  "float32_to_int16_pcm [Finite False 1 (- 1)] = [0xFF, 0x3F]"
  "float32_to_int16_pcm [Finite True 3 (- 2)] = [0x01, 0xA0]"
  "float32_to_int16_pcm [Finite False 32769 (- 30)] = [0x01, 0x00]"
  by (simp_all add: encoder_simps)

text \<open>
  C6. The PCM encoder is a function of its input alone, without an error case: it works
  sample by sample and gives two bytes for every sample, whatever the sample. For a
  sample that is a number, the two bytes are what the specification describes: the sample
  is clamped to \<open>[-1, 1]\<close>, scaled by 32767, truncated toward zero and written as a
  signed 16-bit integer, low byte first. The scaling is a product of floats: the scaled
  value \<open>p\<close> is a number with a significand of 24 bits, no such number is nearer to
  the product of the clamped sample and 32767 as real numbers, its distance from that
  product is at most \<open>2\<^sup>-\<^sup>2\<^sup>4\<close> of the product, and it is \<open>p\<close> that is
  truncated (the sample \<open>32769 \<sqdot> 2\<^sup>-\<^sup>3\<^sup>0\<close> has the product
  \<open>1 - 2\<^sup>-\<^sup>3\<^sup>0\<close>, which is rounded to 1 and written as 1). The truncated
  value lies between -32767 and 32767, so the 16-bit integer holds it without wrap-around.
  An infinite sample is encoded as 1.0 or -1.0 is, 2.0 as 1.0 is, -5.0 as -1.0 is, and 0.0
  gives the zero int16; 0.5 gives 16383 and -0.75 gives -24575, the scaled values 16383.5
  and -24575.25 cut toward zero.
\<close>

theorem pcm_encoder_clamps_scales_truncates:
  "float32_to_int16_pcm audio = concat (map (\<lambda>a. float32_to_int16_pcm [a]) audio)
   \<and> length (float32_to_int16_pcm audio) = 2 * length audio
   \<and> (\<exists>p. float32_to_int16_pcm [Finite s m e] = spec_le16 (spec_truncate p)
          \<and> has_24_bits p
          \<and> \<not> (\<exists>q. has_24_bits q
                  \<and> \<bar>q - spec_clamp (valof s m e) * 32767\<bar>
                      < \<bar>p - spec_clamp (valof s m e) * 32767\<bar>)
          \<and> \<bar>p - spec_clamp (valof s m e) * 32767\<bar>
              \<le> \<bar>spec_clamp (valof s m e) * 32767\<bar> / 2 ^ 24
          \<and> - 32767 \<le> spec_truncate p \<and> spec_truncate p \<le> 32767)
   \<and> float32_to_int16_pcm [Infinity False] = float32_to_int16_pcm [f32 1]
   \<and> float32_to_int16_pcm [Infinity True] = float32_to_int16_pcm [f32 (- 1)]
   \<and> float32_to_int16_pcm [f32 2] = float32_to_int16_pcm [f32 1]
   \<and> float32_to_int16_pcm [f32 (- 5)] = float32_to_int16_pcm [f32 (- 1)]
   \<and> float32_to_int16_pcm [f32 0] = [0, 0]
   \<and> float32_to_int16_pcm [f32 1] = [0xFF, 0x7F]
   \<and> float32_to_int16_pcm [f32 (- 1)] = [0x01, 0x80]
   \<and> float32_to_int16_pcm [Finite False 1 (- 1)] = [0xFF, 0x3F]
   \<and> float32_to_int16_pcm [Finite True 3 (- 2)] = [0x01, 0xA0]
   \<and> float32_to_int16_pcm [Finite False 32769 (- 30)] = [0x01, 0x00]"
proof -
  have "\<exists>p. float32_to_int16_pcm [Finite s m e] = spec_le16 (spec_truncate p)
          \<and> has_24_bits p
          \<and> \<not> (\<exists>q. has_24_bits q
                  \<and> \<bar>q - spec_clamp (valof s m e) * 32767\<bar>
                      < \<bar>p - spec_clamp (valof s m e) * 32767\<bar>)
          \<and> \<bar>p - spec_clamp (valof s m e) * 32767\<bar>
              \<le> \<bar>spec_clamp (valof s m e) * 32767\<bar> / 2 ^ 24
          \<and> - 32767 \<le> spec_truncate p \<and> spec_truncate p \<le> 32767"
    using encode_finite_sample [of s m e] by blast
  then show ?thesis
    using encode_samplewise [of audio] length_float32_to_int16_pcm [of audio]
    by (simp only: encode_demo encode_infinity encode_fractions simp_thms)
qed


subsection \<open>The shared state\<close>

text \<open>
  What the reader thread reads and decides on. Its steps depend on these fields only, so
  two states that agree on them stay in agreement while the reader thread runs.
\<close>

definition shared :: "sys \<Rightarrow> pystr list \<times> bool \<times> bool \<times> json list \<times> nat list" where
  "shared st = (stdin st, reader_alive st, interrupted st, command_queue st, sched st)"

lemma stdin_reader_line_shared:
  "shared st = shared st' \<Longrightarrow>
     shared (stdin_reader_line E l st) = shared (stdin_reader_line E l st')"
  by (simp add: shared_def stdin_reader_line_def log_msg_def Let_def split: sum.split)

lemma stdin_reader_shared:
  "shared st = shared st' \<Longrightarrow> shared (stdin_reader E n st) = shared (stdin_reader E n st')"
proof (induction n arbitrary: st st')
  case 0
  then show ?case by simp
next
  case (Suc n)
  have same: "stdin st = stdin st'" "reader_alive st = reader_alive st'"
    using Suc.prems by (simp_all add: shared_def)
  show ?case
  proof (cases "reader_alive st \<and> stdin st \<noteq> []")
    case False
    then show ?thesis using Suc.prems same by (auto split: list.split)
  next
    case True
    then obtain l ls where ls: "stdin st = l # ls" by (auto simp: neq_Nil_conv)
    have "shared (st\<lparr>stdin := ls\<rparr>) = shared (st'\<lparr>stdin := ls\<rparr>)"
      using Suc.prems by (simp add: shared_def)
    then have "shared (stdin_reader_line E l (st\<lparr>stdin := ls\<rparr>))
                 = shared (stdin_reader_line E l (st'\<lparr>stdin := ls\<rparr>))"
      by (rule stdin_reader_line_shared)
    then have "shared (stdin_reader E n (stdin_reader_line E l (st\<lparr>stdin := ls\<rparr>)))
                 = shared (stdin_reader E n (stdin_reader_line E l (st'\<lparr>stdin := ls\<rparr>)))"
      by (rule Suc.IH)
    then show ?thesis using True ls same by simp
  qed
qed

lemma yield_shared:
  assumes "shared st = shared st'"
  shows "shared (yield E st) = shared (yield E st')"
proof (cases "sched st")
  case Nil
  then show ?thesis using assms by (simp add: yield_def shared_def)
next
  case (Cons n ns)
  have "shared (st\<lparr>sched := ns\<rparr>) = shared (st'\<lparr>sched := ns\<rparr>)"
    using assms by (simp add: shared_def)
  then have "shared (stdin_reader E n (st\<lparr>sched := ns\<rparr>))
               = shared (stdin_reader E n (st'\<lparr>sched := ns\<rparr>))"
    by (rule stdin_reader_shared)
  moreover have "sched st' = n # ns" using assms Cons by (simp add: shared_def)
  ultimately show ?thesis using Cons by (simp add: yield_def)
qed

lemma yield_funpow_shared:
  "shared st = shared st' \<Longrightarrow> shared ((yield E ^^ k) st) = shared ((yield E ^^ k) st')"
proof (induction k)
  case 0
  then show ?case by simp
next
  case (Suc k)
  then have "shared ((yield E ^^ k) st) = shared ((yield E ^^ k) st')" by simp
  then have "shared (yield E ((yield E ^^ k) st)) = shared (yield E ((yield E ^^ k) st'))"
    by (rule yield_shared)
  then show ?case by simp
qed

lemma stdin_reader_line_stdout: "stdout (stdin_reader_line E l st) = stdout st"
  by (simp add: stdin_reader_line_def log_msg_def Let_def split: sum.split)

lemma stdin_reader_stdout: "stdout (stdin_reader E n st) = stdout st"
proof (induction n arbitrary: st)
  case 0
  show ?case by simp
next
  case (Suc n)
  show ?case
    by (cases "stdin st") (simp_all add: Suc.IH stdin_reader_line_stdout)
qed

lemma yield_stdout: "stdout (yield E st) = stdout st"
  by (cases "sched st") (simp_all add: yield_def stdin_reader_stdout)

subsection \<open>The frames of a generation\<close>

lemma strip_blank: "(strip text = []) = list_all py_isspace text"
proof -
  have "(\<forall>x\<in>set (dropWhile py_isspace text). py_isspace x) = (dropWhile py_isspace text = [])"
  proof (cases "dropWhile py_isspace text")
    case Nil
    then show ?thesis by (simp del: dropWhile_eq_Nil_conv)
  next
    case (Cons c cs)
    then have "\<not> py_isspace c" using hd_dropWhile [of py_isspace "text"] by auto
    then show ?thesis using Cons by auto
  qed
  then show ?thesis
    by (simp add: strip_def dropWhile_eq_Nil_conv list_all_iff)
qed


lemma writable_short: "audio \<in> set (writable ps) \<Longrightarrow> length (float32_to_int16_pcm audio) < 2 ^ 32"
  by (induction ps rule: writable.induct) (auto split: if_splits)

lemma unpack_be32: 
  assumes "n < 2 ^ 32"
  shows "unpack_u32_be (be32 n) = n"
proof -
  define a where "a = n div 256"
  define b where "b = a div 256"
  define c where "c = b div 256"
  have n: "n = a * 256 + n mod 256" by (simp add: a_def)
  have a: "a = b * 256 + a mod 256" by (simp add: b_def)
  have b: "b = c * 256 + b mod 256" by (simp add: c_def)
  have c: "c < 256" using assms unfolding c_def b_def a_def by simp
  have d8: "n div 2 ^ 8 = a" by (simp add: a_def)
  have d16: "n div 2 ^ 16 = b" 
    unfolding b_def a_def by (simp add: div_mult2_eq)
  have d24: "n div 2 ^ 24 = c"
    unfolding c_def b_def a_def by (simp add: div_mult2_eq)
  have "unpack_u32_be (be32 n) = ((c mod 256 * 256 + b mod 256) * 256 + a mod 256) * 256 + n mod 256"
    unfolding be32_def d8 d16 d24 by (simp add: unpack_u32_be_def unat_of_nat)
  also have "c mod 256 = c" using c by simp
  also have "((c * 256 + b mod 256) * 256 + a mod 256) * 256 + n mod 256 = n"
    using n a b by simp
  finally show ?thesis .
qed

lemma length_be32: "length (be32 n) = 4"
  by (simp add: be32_def)

lemma parse_frames_frame:
  assumes "length p < 2 ^ 32"
  shows "parse_frames (frame p @ rest) = map_option (Cons p) (parse_frames rest)"
proof -
  have ne: "frame p @ rest \<noteq> []" by (simp add: frame_def be32_def)
  have len: "\<not> length (frame p @ rest) < 4" by (simp add: frame_def length_be32)
  have hd4: "take 4 (frame p @ rest) = be32 (length p)" by (simp add: frame_def length_be32)
  have tl4: "drop 4 (frame p @ rest) = p @ rest" by (simp add: frame_def length_be32)
  show ?thesis
    by (subst parse_frames.simps)
       (simp only: ne len hd4 tl4 unpack_be32 [OF assms] Let_def if_False, simp)
qed

lemma parse_frames_frames:
  assumes "\<And>audio. audio \<in> set chunks \<Longrightarrow> length (float32_to_int16_pcm audio) < 2 ^ 32"
  shows "parse_frames (frames chunks @ rest)
           = map_option (\<lambda>fs. map float32_to_int16_pcm chunks @ fs) (parse_frames rest)"
  using assms
proof (induction chunks)
  case Nil
  show ?case by (simp add: frames_def option.map_ident)
next
  case (Cons c cs)
  have "frames (c # cs) @ rest = frame (float32_to_int16_pcm c) @ (frames cs @ rest)"
    by (simp add: frames_def)
  then show ?case
    using Cons by (simp add: parse_frames_frame option.map_comp o_def)
qed

lemma parse_frames_end_marker: "parse_frames end_marker = Some [[]]"
proof -
  have "end_marker = frame [] @ []" by (simp add: end_marker_def frame_def)
  moreover have "parse_frames [] = Some []" by (simp add: parse_frames.simps)
  moreover have "parse_frames (frame [] @ []) = map_option (Cons []) (parse_frames [])"
    by (rule parse_frames_frame) simp
  ultimately show ?thesis by simp
qed

lemma parse_generation:
  "parse_frames (frames (take n (writable ps)) @ end_marker)
     = Some (map float32_to_int16_pcm (take n (writable ps)) @ [[]])"
proof -
  have "audio \<in> set (take n (writable ps)) \<Longrightarrow> length (float32_to_int16_pcm audio) < 2 ^ 32"
    for audio using writable_short [of audio ps] by (auto dest: in_set_takeD)
  then show ?thesis
    by (simp add: parse_frames_frames parse_frames_end_marker)
qed


subsection \<open>What a generation writes\<close>

lemma at_check_shift:
  assumes "shared st2 = shared (yield E st)"
  shows "interrupted (at_check E st2 i) = interrupted (at_check E st (Suc i))"
proof -
  have "shared ((yield E ^^ Suc i) st2) = shared ((yield E ^^ Suc i) (yield E st))"
    using assms by (rule yield_funpow_shared)
  also have "(yield E ^^ Suc i) (yield E st) = (yield E ^^ Suc (Suc i)) st"
    by (simp only: funpow_Suc_right o_apply)
  finally show ?thesis by (simp add: at_check_def shared_def)
qed

lemma write_audio_chunk_frame:
  "length pcm < 2 ^ 32 \<Longrightarrow>
     write_audio_chunk pcm st = Inr (st\<lparr>stdout := stdout st @ frame pcm\<rparr>)"
  by (simp add: write_audio_chunk_def pack_u32_be_def frame_def)

lemma write_audio_chunk_raises:
  "\<not> length pcm < 2 ^ 32 \<Longrightarrow> write_audio_chunk pcm st = Inl (str ''struct.error'')"
  by (simp add: write_audio_chunk_def pack_u32_be_def)

lemma for_results_written:
  "\<exists>n. n \<le> length (writable ps)
     \<and> stdout (snd (for_results E ps st)) = stdout st @ frames (take n (writable ps))
     \<and> (\<forall>i<n. \<not> interrupted (at_check E st i))
     \<and> (n < length (writable ps) \<longrightarrow>
          interrupted (at_check E st n) \<and> interrupted (snd (for_results E ps st))
          \<and> fst (for_results E ps st) = None)"
proof (induction ps arbitrary: st)
  case Nil
  show ?case by (simp add: frames_def)
next
  case (Cons p ps)
  show ?case
  proof (cases p)
    case (Raise e)
    then show ?thesis by (simp add: frames_def)
  next
    case (Yield r)
    let ?st1 = "yield E st"
    have st1: "?st1 = at_check E st 0" by (simp add: at_check_def)
    show ?thesis
    proof (cases "interrupted ?st1")
      case True
      have "stdout (snd (for_results E (p # ps) st)) = stdout st @ frames (take 0 (writable (p # ps)))"
        using True Yield by (simp add: yield_stdout frames_def)
      moreover have "interrupted (at_check E st 0) \<and> interrupted (snd (for_results E (p # ps) st))
          \<and> fst (for_results E (p # ps) st) = None"
        using True Yield st1 by simp
      ultimately show ?thesis by (intro exI [of _ 0]) simp
    next
      case False
      show ?thesis
      proof (cases r)
        case (Unconvertible e)
        then show ?thesis using False Yield by (simp add: yield_stdout frames_def)
      next
        case (Samples audio)
        let ?pcm = "float32_to_int16_pcm audio"
        show ?thesis
        proof (cases "length ?pcm < 2 ^ 32")
          case short: False
          then show ?thesis using False Yield Samples
            by (simp add: yield_stdout frames_def write_audio_chunk_raises)
        next
          case short: True
          define st2 where "st2 = ?st1\<lparr>stdout := stdout ?st1 @ frame ?pcm\<rparr>"
          have sh: "shared st2 = shared ?st1" by (simp add: st2_def shared_def)
          have out2: "stdout st2 = stdout st @ frame ?pcm"
            by (simp add: st2_def yield_stdout)
          have "for_results E (Yield (Samples audio) # ps) st = for_results E ps st2"
            unfolding st2_def using False short
            by (simp add: write_audio_chunk_frame Let_def)
          then have run: "for_results E (p # ps) st = for_results E ps st2"
            using Yield Samples by simp
          have w: "writable (p # ps) = audio # writable ps"
            using Yield Samples short by simp
          from Cons.IH [of st2] obtain n where
            n: "n \<le> length (writable ps)"
            and out: "stdout (snd (for_results E ps st2)) = stdout st2 @ frames (take n (writable ps))"
            and before: "\<forall>i<n. \<not> interrupted (at_check E st2 i)"
            and broke: "n < length (writable ps) \<longrightarrow>
                interrupted (at_check E st2 n) \<and> interrupted (snd (for_results E ps st2))
                \<and> fst (for_results E ps st2) = None"
            by blast
          have A: "Suc n \<le> length (writable (p # ps))" using n w by simp
          have B: "stdout (snd (for_results E (p # ps) st))
               = stdout st @ frames (take (Suc n) (writable (p # ps)))"
            unfolding run out out2 w by (simp add: frames_def)
          have C: "\<forall>i<Suc n. \<not> interrupted (at_check E st i)"
          proof (intro allI impI)
            fix i assume i: "i < Suc n"
            show "\<not> interrupted (at_check E st i)"
            proof (cases i)
              case 0
              then show ?thesis using False st1 by simp
            next
              case (Suc j)
              then have "j < n" using i by simp
              then have "\<not> interrupted (at_check E st2 j)" using before by simp
              then show ?thesis unfolding Suc at_check_shift [OF sh] .
            qed
          qed
          have D: "Suc n < length (writable (p # ps)) \<longrightarrow>
              interrupted (at_check E st (Suc n)) \<and> interrupted (snd (for_results E (p # ps) st))
              \<and> fst (for_results E (p # ps) st) = None"
            unfolding run w using broke at_check_shift [OF sh, of n] by simp
          show ?thesis
            by (intro exI [of _ "Suc n"] conjI A B C D)
        qed
      qed
    qed
  qed
qed



lemma at_check_cong:
  assumes "shared a = shared b"
  shows "interrupted (at_check E a i) = interrupted (at_check E b i)"
proof -
  have "shared ((yield E ^^ Suc i) a) = shared ((yield E ^^ Suc i) b)"
    using assms by (rule yield_funpow_shared)
  then show ?thesis by (simp add: at_check_def shared_def)
qed

lemma handle_generate_written:
  "\<exists>n. n \<le> length (writable (results_of m text voice))
     \<and> stdout (handle_generate E m text voice st)
         = stdout st @ frames (take n (writable (results_of m text voice))) @ end_marker
     \<and> (\<forall>i<n. \<not> interrupted (at_check E st i))
     \<and> (n < length (writable (results_of m text voice)) \<longrightarrow>
          interrupted (at_check E st n) \<and> interrupted (handle_generate E m text voice st))"
proof (cases "strip text = []")
  case True
  then show ?thesis
    by (simp add: results_of_def handle_generate_def write_end_marker_def end_marker_def
        frames_def)
next
  case False
  define ps where "ps = generate m text voice (Some True)"
  define st0 where "st0 = st\<lparr>generate_calls := generate_calls st @ [(text, voice)]\<rparr>"
  have ps: "results_of m text voice = ps" using False by (simp add: results_of_def ps_def)
  have sh: "shared st0 = shared st" by (simp add: st0_def shared_def)
  have out0: "stdout st0 = stdout st" by (simp add: st0_def)
  obtain x st1 where r: "for_results E ps st0 = (x, st1)"
    by (cases "for_results E ps st0")
  have hg: "handle_generate E m text voice st =
      (case x of None \<Rightarrow> write_end_marker st1
       | Some e \<Rightarrow> write_end_marker (log_msg (str ''ERROR: Generation failed: '' @ e) (yield E st1)))"
    using False r unfolding handle_generate_def ps_def st0_def by (simp add: Let_def)
  have hg_out: "stdout (handle_generate E m text voice st) = stdout st1 @ end_marker"
    unfolding hg
    by (cases x) (simp_all add: write_end_marker_def log_msg_def yield_stdout end_marker_def)
  from for_results_written [of ps E st0] r obtain n where
    n: "n \<le> length (writable ps)"
    and out: "stdout st1 = stdout st0 @ frames (take n (writable ps))"
    and before: "\<forall>i<n. \<not> interrupted (at_check E st0 i)"
    and broke: "n < length (writable ps) \<longrightarrow>
        interrupted (at_check E st0 n) \<and> interrupted st1 \<and> x = None"
    by auto
  have B: "stdout (handle_generate E m text voice st)
         = stdout st @ frames (take n (writable ps)) @ end_marker"
    unfolding hg_out out out0 by simp
  have C: "\<forall>i<n. \<not> interrupted (at_check E st i)"
    using before at_check_cong [OF sh] by simp
  have D: "n < length (writable ps) \<longrightarrow>
          interrupted (at_check E st n) \<and> interrupted (handle_generate E m text voice st)"
  proof
    assume "n < length (writable ps)"
    then have b: "interrupted (at_check E st0 n)" "interrupted st1" "x = None"
      using broke by simp_all
    have "interrupted (handle_generate E m text voice st)"
      unfolding hg using b by (simp add: write_end_marker_def)
    then show "interrupted (at_check E st n) \<and> interrupted (handle_generate E m text voice st)"
      using b at_check_cong [OF sh] by simp
  qed
  show ?thesis
    unfolding ps by (intro exI [of _ n] conjI n B C D)
qed


text \<open>
  C8. When the text is empty or consists of whitespace only, \<open>handle_generate\<close> does
  one thing: it appends the four bytes 00 00 00 00, one zero-length frame, to stdout. The
  model is not called (\<open>generate_calls\<close> is unchanged), no data frame is written and
  nothing goes to stderr.
\<close>

theorem blank_text_writes_only_the_end_marker:
  assumes "list_all py_isspace text"
  shows "handle_generate E m text voice st = st\<lparr>stdout := stdout st @ [0, 0, 0, 0]\<rparr>
    \<and> stdout (handle_generate E m text voice st) = stdout st @ [0, 0, 0, 0]
    \<and> generate_calls (handle_generate E m text voice st) = generate_calls st
    \<and> stderr (handle_generate E m text voice st) = stderr st"
proof -
  have "strip text = []" using assms by (simp add: strip_blank)
  then have "handle_generate E m text voice st = st\<lparr>stdout := stdout st @ [0, 0, 0, 0]\<rparr>"
    by (simp add: handle_generate_def write_end_marker_def be32_def)
  then show ?thesis by simp
qed

theorem blank_text_writes_only_the_end_marker_witness:
  "list_all py_isspace [0x20, 0x09, 0x3000]
   \<and> handle_generate demo_env five_chunks [0x20, 0x09, 0x3000] DEFAULT_VOICE idle
       = idle\<lparr>stdout := [0, 0, 0, 0]\<rparr>
   \<and> list_all py_isspace []
   \<and> handle_generate demo_env five_chunks [] DEFAULT_VOICE idle = idle\<lparr>stdout := [0, 0, 0, 0]\<rparr>"
proof -
  have a: "list_all py_isspace [0x20, 0x09, 0x3000]" by (simp add: py_isspace_def)
  have b: "list_all py_isspace []" by simp
  show ?thesis
    using a b blank_text_writes_only_the_end_marker [OF a, of demo_env five_chunks DEFAULT_VOICE idle]
      blank_text_writes_only_the_end_marker [OF b, of demo_env five_chunks DEFAULT_VOICE idle]
    by (simp add: idle_def)
qed

subsection \<open>Empty chunks\<close>

lemma str_hi: "strip (str ''hi'') \<noteq> []"
  by (simp add: strip_def str_def py_isspace_def)

lemma writable_no_empty:
  "Yield (Samples []) \<notin> set ps \<Longrightarrow> [] \<notin> set (writable ps)"
  by (induction ps rule: writable.induct) auto

lemma encode_empty: "(float32_to_int16_pcm audio = []) = (audio = [])"
  using length_float32_to_int16_pcm [of audio] by (metis length_0_conv mult_is_0 zero_neq_numeral)

text \<open>
  C4, as stated, fails: the generation routine filters nothing. For a model that yields
  one empty chunk the output is two zero-length frames, the first written by
  \<open>write_audio_chunk\<close> as a data frame, the second the end marker.
\<close>

theorem empty_chunk_counterexample:
  "stdout (handle_generate demo_env empty_chunk (str ''hi'') DEFAULT_VOICE idle)
     = [0, 0, 0, 0, 0, 0, 0, 0]
   \<and> parse_frames (stdout (handle_generate demo_env empty_chunk (str ''hi'') DEFAULT_VOICE idle))
     = Some [[], []]"
proof -
  have out: "stdout (handle_generate demo_env empty_chunk (str ''hi'') DEFAULT_VOICE idle)
     = frame [] @ end_marker"
    using str_hi
    by (simp add: handle_generate_def empty_chunk_def idle_def yield_def Let_def
        float32_to_int16_pcm_def write_audio_chunk_def pack_u32_be_def write_end_marker_def
        frame_def end_marker_def)
  have "parse_frames (frame [] @ end_marker) = Some [[], []]"
    by (simp add: parse_frames_frame parse_frames_end_marker)
  then show ?thesis unfolding out by (simp add: frame_def be32_def end_marker_def)
qed

text \<open>
  C4, amended. When the model's stream yields no empty chunk, the frames of a generation
  are data frames with a payload each, and then the end marker: the end marker is the only
  zero-length frame.
\<close>

theorem nonempty_chunks_one_zero_length_frame:
  assumes "Yield (Samples []) \<notin> set (results_of m text voice)"
  shows "\<exists>fs. parse_frames (drop (length (stdout st)) (stdout (handle_generate E m text voice st)))
                = Some (fs @ [[]])
            \<and> [] \<notin> set fs"
proof -
  from handle_generate_written [of m "text" voice E st] obtain n where
    out: "stdout (handle_generate E m text voice st)
          = stdout st @ frames (take n (writable (results_of m text voice))) @ end_marker"
    by blast
  let ?fs = "map float32_to_int16_pcm (take n (writable (results_of m text voice)))"
  have "[] \<notin> set (take n (writable (results_of m text voice)))"
    using writable_no_empty [OF assms] by (auto dest: in_set_takeD)
  then have "[] \<notin> set ?fs" by (auto simp: encode_empty eq_commute [of "[]"])
  moreover have "parse_frames (drop (length (stdout st)) (stdout (handle_generate E m text voice st)))
      = Some (?fs @ [[]])"
    unfolding out by (simp add: parse_generation)
  ultimately show ?thesis by blast
qed


theorem nonempty_chunks_one_zero_length_frame_witness:
  "Yield (Samples []) \<notin> set (results_of five_chunks (str ''hi'') DEFAULT_VOICE)
   \<and> (\<exists>fs. parse_frames (drop (length (stdout idle))
                  (stdout (handle_generate demo_env five_chunks (str ''hi'') DEFAULT_VOICE idle)))
                = Some (fs @ [[]])
            \<and> [] \<notin> set fs)"
proof -
  have h: "Yield (Samples []) \<notin> set (results_of five_chunks (str ''hi'') DEFAULT_VOICE)"
    using str_hi by (simp add: results_of_def five_chunks_def)
  show ?thesis
    using h nonempty_chunks_one_zero_length_frame [OF h, of idle demo_env] by blast
qed

subsection \<open>One end marker for every generation\<close>

text \<open>
  C1, as stated, fails where C4 does: \<open>handle_generate\<close> writes an empty chunk as a
  zero-length frame. For a model that yields an empty chunk and then a chunk of one sample
  the output is three frames, of which two are zero-length, and the first zero-length frame
  comes before a data frame.
\<close>

theorem empty_chunk_before_sound_counterexample:
  "stdout (handle_generate demo_env silence_then_sound (str ''hi'') DEFAULT_VOICE idle)
     = [0, 0, 0, 0,  0, 0, 0, 2, 0xFF, 0x7F,  0, 0, 0, 0]
   \<and> parse_frames (stdout (handle_generate demo_env silence_then_sound (str ''hi'') DEFAULT_VOICE idle))
     = Some [[], [0xFF, 0x7F], []]
   \<and> count_list [[], [0xFF, 0x7F], [] :: byte list] [] = 2"
proof -
  have out: "stdout (handle_generate demo_env silence_then_sound (str ''hi'') DEFAULT_VOICE idle)
     = frame [] @ frame [0xFF, 0x7F] @ end_marker"
    using str_hi
    by (simp add: handle_generate_def silence_then_sound_def idle_def yield_def Let_def
        float32_to_int16_pcm_def [of "[]"] encode_demo write_audio_chunk_def pack_u32_be_def
        write_end_marker_def frame_def end_marker_def)
  have "parse_frames (frame [] @ frame [0xFF, 0x7F] @ end_marker) = Some [[], [0xFF, 0x7F], []]"
    by (simp add: parse_frames_frame parse_frames_end_marker)
  then show ?thesis unfolding out by (simp add: frame_def be32_def end_marker_def)
qed

text \<open>
  C1, amended. Take a stream that yields no empty chunk; the text, the lines on stdin
  and the schedule of the two threads are arbitrary. What \<open>handle_generate\<close> appends
  to stdout is the data frames of the first \<open>n\<close> writable chunks of the stream and
  then the end marker, and \<open>n\<close> is determined: the event is found clear at the first
  \<open>n\<close> tests, and it is found set at the next test unless all writable chunks have been
  written. (The writable chunks are none for a blank text, and otherwise the chunks up to
  the end of the stream or up to its first exception.) Read back as frames, the output is
  \<open>n\<close> frames with a payload and then one zero-length frame: exactly one frame is
  zero-length, and it is the last.
\<close>

theorem generation_ends_with_one_end_marker:
  assumes "Yield (Samples []) \<notin> set (results_of m text voice)"
  shows "\<exists>n \<le> length (writable (results_of m text voice)).
      stdout (handle_generate E m text voice st)
        = stdout st @ frames (take n (writable (results_of m text voice))) @ end_marker
    \<and> parse_frames (frames (take n (writable (results_of m text voice))) @ end_marker)
        = Some (map float32_to_int16_pcm (take n (writable (results_of m text voice))) @ [[]])
    \<and> [] \<notin> set (map float32_to_int16_pcm (take n (writable (results_of m text voice))))
    \<and> count_list (map float32_to_int16_pcm (take n (writable (results_of m text voice))) @ [[]]) [] = 1
    \<and> (\<forall>i<n. \<not> interrupted (at_check E st i))
    \<and> (n < length (writable (results_of m text voice)) \<longrightarrow> interrupted (at_check E st n))"
proof -
  let ?W = "writable (results_of m text voice)"
  from handle_generate_written [of m "text" voice E st] obtain n where
    n: "n \<le> length ?W"
    and out: "stdout (handle_generate E m text voice st) = stdout st @ frames (take n ?W) @ end_marker"
    and clear: "\<forall>i<n. \<not> interrupted (at_check E st i)"
    and broke: "n < length ?W \<longrightarrow> interrupted (at_check E st n)"
    by blast
  let ?fs = "map float32_to_int16_pcm (take n ?W)"
  have "[] \<notin> set (take n ?W)"
    using writable_no_empty [OF assms] by (auto dest: in_set_takeD)
  then have ne: "[] \<notin> set ?fs" by (auto simp: encode_empty eq_commute [of "[]"])
  then have "count_list ?fs [] = 0" by simp
  then have one: "count_list (?fs @ [[]]) [] = 1" by simp
  have parse: "parse_frames (frames (take n ?W) @ end_marker) = Some (?fs @ [[]])"
    by (rule parse_generation)
  show ?thesis using n out parse ne one clear broke by blast
qed

lemma strip_spaces: "list_all py_isspace [0x20, 0x09]"
  by (simp add: py_isspace_def)

theorem generation_ends_with_one_end_marker_witness:
  "Yield (Samples []) \<notin> set (results_of five_chunks [0x20, 0x09] DEFAULT_VOICE)
   \<and> Yield (Samples []) \<notin> set (results_of five_chunks (str ''hi'') DEFAULT_VOICE)
   \<and> Yield (Samples []) \<notin> set (results_of raises_after_one (str ''hi'') DEFAULT_VOICE)
   \<and> (\<exists>fs. parse_frames (stdout (handle_generate demo_env five_chunks [0x20, 0x09] DEFAULT_VOICE idle))
               = Some (fs @ [[]]) \<and> count_list (fs @ [[]]) [] = 1)
   \<and> (\<exists>fs. parse_frames (stdout (handle_generate demo_env five_chunks (str ''hi'') DEFAULT_VOICE idle))
               = Some (fs @ [[]]) \<and> count_list (fs @ [[]]) [] = 1)
   \<and> (\<exists>fs. parse_frames (stdout (handle_generate demo_env raises_after_one (str ''hi'') DEFAULT_VOICE idle))
               = Some (fs @ [[]]) \<and> count_list (fs @ [[]]) [] = 1)
   \<and> (\<exists>fs. parse_frames (stdout (handle_generate demo_env five_chunks (str ''hi'') DEFAULT_VOICE
                 interrupted_after_two))
               = Some (fs @ [[]]) \<and> count_list (fs @ [[]]) [] = 1)
   \<and> stdout (handle_generate demo_env raises_after_one (str ''hi'') DEFAULT_VOICE idle)
       = [0, 0, 0, 2, 0xFF, 0x7F,  0, 0, 0, 0]"
proof -
  have blank: "Yield (Samples []) \<notin> set (results_of five_chunks [0x20, 0x09] DEFAULT_VOICE)"
    using strip_spaces by (simp add: results_of_def strip_blank)
  have five: "Yield (Samples []) \<notin> set (results_of five_chunks (str ''hi'') DEFAULT_VOICE)"
    using str_hi by (simp add: results_of_def five_chunks_def)
  have boom: "Yield (Samples []) \<notin> set (results_of raises_after_one (str ''hi'') DEFAULT_VOICE)"
    using str_hi by (simp add: results_of_def raises_after_one_def)
  have run: "\<exists>fs. parse_frames (stdout (handle_generate demo_env m tx DEFAULT_VOICE st))
               = Some (fs @ [[]]) \<and> count_list (fs @ [[]]) [] = 1"
    if h: "Yield (Samples []) \<notin> set (results_of m tx DEFAULT_VOICE)" and e: "stdout st = []"
    for m tx st
  proof -
    from generation_ends_with_one_end_marker [OF h, of demo_env st] obtain n where
      out: "stdout (handle_generate demo_env m tx DEFAULT_VOICE st)
              = stdout st @ frames (take n (writable (results_of m tx DEFAULT_VOICE))) @ end_marker"
      and parse: "parse_frames (frames (take n (writable (results_of m tx DEFAULT_VOICE))) @ end_marker)
          = Some (map float32_to_int16_pcm (take n (writable (results_of m tx DEFAULT_VOICE))) @ [[]])"
      and one: "count_list (map float32_to_int16_pcm
                  (take n (writable (results_of m tx DEFAULT_VOICE))) @ [[]]) [] = 1"
      by blast
    show ?thesis unfolding out e using parse one by auto
  qed
  have bytes: "stdout (handle_generate demo_env raises_after_one (str ''hi'') DEFAULT_VOICE idle)
       = [0, 0, 0, 2, 0xFF, 0x7F,  0, 0, 0, 0]"
    using str_hi
    by (simp add: handle_generate_def raises_after_one_def idle_def yield_def Let_def log_msg_def
        encode_demo write_audio_chunk_def pack_u32_be_def be32_def write_end_marker_def)
  have i: "stdout idle = []" by (simp add: idle_def)
  have j: "stdout interrupted_after_two = []" by (simp add: interrupted_after_two_def idle_def)
  show ?thesis
    using blank five boom run [OF blank i] run [OF five i] run [OF boom i] run [OF five j] bytes
    by (intro conjI) 
qed

subsection \<open>Interruption\<close>











subsection \<open>The command loop\<close>

lemma stdin_reader_line_generate_calls:
  "generate_calls (stdin_reader_line E l st) = generate_calls st"
  by (simp add: stdin_reader_line_def log_msg_def Let_def split: sum.split)

lemma stdin_reader_generate_calls: "generate_calls (stdin_reader E n st) = generate_calls st"
proof (induction n arbitrary: st)
  case 0
  show ?case by simp
next
  case (Suc n)
  show ?case
    by (cases "stdin st") (simp_all add: Suc.IH stdin_reader_line_generate_calls)
qed

lemma yield_generate_calls: "generate_calls (yield E st) = generate_calls st"
  by (cases "sched st") (simp_all add: yield_def stdin_reader_generate_calls)

lemma dispatch_generate:
  assumes "map_of d (str ''cmd'') = Some (JStr (str ''generate''))"
  shows "dispatch E m voice (JObj d) st =
     (case (case map_of d (str ''text'') of None \<Rightarrow> JStr [] | Some v \<Rightarrow> v) of
        JStr tx \<Rightarrow> (None, handle_generate E m tx voice ((yield E st)\<lparr>interrupted := False\<rparr>))
      | _ \<Rightarrow> (Some Uncaught, (yield E st)\<lparr>interrupted := False\<rparr>))"
  using assms by (simp add: dispatch_def dict_get_def Let_def)

lemma strip_lines:
  "strip interrupt_line = interrupt_line" "strip quit_line = quit_line"
  "strip (generate_line ''A'') = generate_line ''A''"
  "strip (generate_line ''B'') = generate_line ''B''"
  "strip generate_no_text_line = generate_no_text_line"
  "strip (str ''42'') = str ''42''"
  by (simp_all add: strip_def interrupt_line_def quit_line_def generate_line_def
      generate_no_text_line_def str_def py_isspace_def)

lemma lines_distinct:
  "interrupt_line \<noteq> []" "quit_line \<noteq> []" "generate_line ''A'' \<noteq> []" "generate_line ''B'' \<noteq> []"
  "generate_no_text_line \<noteq> []" "str ''42'' \<noteq> []"
  "quit_line \<noteq> interrupt_line"
  "generate_line ''A'' \<noteq> interrupt_line" "generate_line ''A'' \<noteq> quit_line"
  "generate_line ''B'' \<noteq> interrupt_line" "generate_line ''B'' \<noteq> quit_line"
  "generate_line ''B'' \<noteq> generate_line ''A''"
  "generate_no_text_line \<noteq> interrupt_line" "generate_no_text_line \<noteq> quit_line"
  "generate_no_text_line \<noteq> generate_line ''A''" "generate_no_text_line \<noteq> generate_line ''B''"
  "str ''42'' \<noteq> interrupt_line" "str ''42'' \<noteq> quit_line"
  "str ''42'' \<noteq> generate_line ''A''" "str ''42'' \<noteq> generate_line ''B''"
  "str ''42'' \<noteq> generate_no_text_line"
  by (simp_all add: interrupt_line_def quit_line_def generate_line_def
      generate_no_text_line_def str_def)

lemma demo_loads_lines:
  "demo_loads interrupt_line = Inr (JObj [(str ''cmd'', JStr (str ''interrupt''))])"
  "demo_loads quit_line = Inr (JObj [(str ''cmd'', JStr (str ''quit''))])"
  "demo_loads (generate_line ''A'')
     = Inr (JObj [(str ''cmd'', JStr (str ''generate'')), (str ''text'', JStr (str ''A''))])"
  "demo_loads (generate_line ''B'')
     = Inr (JObj [(str ''cmd'', JStr (str ''generate'')), (str ''text'', JStr (str ''B''))])"
  "demo_loads generate_no_text_line = Inr (JObj [(str ''cmd'', JStr (str ''generate''))])"
  "demo_loads (str ''42'') = Inr (JInt 42)"
  by (simp_all add: demo_loads_def lines_distinct)

lemma str_eq: "(str a = str b) = (a = b)"
  by (simp add: str_def inj_map_eq_map inj_on_def)

lemma strip_A: "strip (str ''A'') \<noteq> []" "strip (str ''B'') \<noteq> []"
  by (simp_all add: strip_def str_def py_isspace_def)

lemma main_loop_next:
  assumes "queue_get E (yield E st) = (Some cmd, st1)" and "dispatch E m voice cmd st1 = (None, st2)"
  shows "main_loop E m voice st = main_loop E m voice st2"
  by (subst main_loop.simps) (simp add: assms)

lemma main_loop_stop:
  assumes "queue_get E (yield E st) = (Some cmd, st1)" and "dispatch E m voice cmd st1 = (Some s, st2)"
  shows "main_loop E m voice st = (s, st2)"
  by (subst main_loop.simps) (simp add: assms)

lemma main_loop_hang:
  assumes "queue_get E (yield E st) = (None, st1)"
  shows "main_loop E m voice st = (Hang, st1)"
  by (subst main_loop.simps) (simp add: assms)

lemmas run_simps =
  yield_def queue_get.simps stdin_reader_line_def strip_lines lines_distinct demo_env_def demo_loads_lines
  dict_get_def str_eq dispatch_def strip_A handle_generate_def five_chunks_def Let_def
  encode_demo
  write_audio_chunk_def pack_u32_be_def be32_def write_end_marker_def

lemma demo_two_generations:
  "main_loop demo_env five_chunks DEFAULT_VOICE two_generations
     = (Break, idle\<lparr>
          stdout := [0, 0, 0, 2, 0, 0,  0, 0, 0, 0,
                     0, 0, 0, 2, 0, 0,  0, 0, 0, 2, 0xFF, 0x7F,  0, 0, 0, 2, 0x01, 0x80,
                     0, 0, 0, 2, 0xFF, 0x7F,  0, 0, 0, 2, 0x01, 0x80,  0, 0, 0, 0],
          generate_calls := [(str ''A'', DEFAULT_VOICE), (str ''B'', DEFAULT_VOICE)]\<rparr>)"
proof -
  let ?A = "JObj [(str ''cmd'', JStr (str ''generate'')), (str ''text'', JStr (str ''A''))]"
  let ?B = "JObj [(str ''cmd'', JStr (str ''generate'')), (str ''text'', JStr (str ''B''))]"
  let ?Q = "JObj [(str ''cmd'', JStr (str ''quit''))]"
  let ?outA = "[0, 0, 0, 2, 0, 0,  0, 0, 0, 0] :: byte list"
  let ?outB = "[0, 0, 0, 2, 0, 0,  0, 0, 0, 2, 0xFF, 0x7F,  0, 0, 0, 2, 0x01, 0x80,
                0, 0, 0, 2, 0xFF, 0x7F,  0, 0, 0, 2, 0x01, 0x80,  0, 0, 0, 0] :: byte list"
  let ?s1 = "idle\<lparr>stdin := [interrupt_line, quit_line], command_queue := [?B], sched := [0, 0, 1]\<rparr>"
  let ?s2 = "idle\<lparr>stdin := [quit_line], interrupted := True, command_queue := [?B],
                stdout := ?outA, generate_calls := [(str ''A'', DEFAULT_VOICE)]\<rparr>"
  let ?s3 = "idle\<lparr>stdin := [quit_line], stdout := ?outA @ ?outB,
                generate_calls := [(str ''A'', DEFAULT_VOICE), (str ''B'', DEFAULT_VOICE)]\<rparr>"
  let ?s4 = "idle\<lparr>stdout := ?outA @ ?outB,
                generate_calls := [(str ''A'', DEFAULT_VOICE), (str ''B'', DEFAULT_VOICE)]\<rparr>"
  have g1: "queue_get demo_env (yield demo_env two_generations) = (Some ?A, ?s1)"
    by (simp add: two_generations_def idle_def numeral_2_eq_2 run_simps)
  have d1: "dispatch demo_env five_chunks DEFAULT_VOICE ?A ?s1 = (None, ?s2)"
    by (simp add: idle_def run_simps)
  have g2: "queue_get demo_env (yield demo_env ?s2) = (Some ?B, ?s2\<lparr>command_queue := []\<rparr>)"
    by (simp add: idle_def run_simps)
  have d2: "dispatch demo_env five_chunks DEFAULT_VOICE ?B (?s2\<lparr>command_queue := []\<rparr>) = (None, ?s3)"
    by (simp add: idle_def run_simps)
  have g3: "queue_get demo_env (yield demo_env ?s3) = (Some ?Q, ?s4)"
    by (simp add: idle_def run_simps)
  have d3: "dispatch demo_env five_chunks DEFAULT_VOICE ?Q ?s4 = (Some Break, ?s4)"
    by (simp add: idle_def run_simps)
  have "main_loop demo_env five_chunks DEFAULT_VOICE two_generations
          = main_loop demo_env five_chunks DEFAULT_VOICE ?s2"
    using g1 d1 by (rule main_loop_next)
  also have "\<dots> = main_loop demo_env five_chunks DEFAULT_VOICE ?s3"
    using g2 d2 by (rule main_loop_next)
  also have "\<dots> = (Break, ?s4)"
    using g3 d3 by (rule main_loop_stop)
  finally show ?thesis by simp
qed


text \<open>
  C10. A generate command without a \<open>text\<close> field is served with the empty string:
  the dispatch clears the event and calls \<open>handle_generate\<close> with \<open>""\<close>, which
  appends the four bytes of the end marker to stdout and nothing else. The model is not
  called, and the main thread writes nothing to stderr (what stderr holds afterwards is what
  the reader thread wrote in its turn).
\<close>

theorem generate_without_text_writes_only_the_end_marker:
  assumes "map_of d (str ''cmd'') = Some (JStr (str ''generate''))"
    and "map_of d (str ''text'') = None"
  shows "dispatch E m voice (JObj d) st
           = (None, handle_generate E m [] voice ((yield E st)\<lparr>interrupted := False\<rparr>))
    \<and> stdout (snd (dispatch E m voice (JObj d) st)) = stdout st @ [0, 0, 0, 0]
    \<and> generate_calls (snd (dispatch E m voice (JObj d) st)) = generate_calls st
    \<and> stderr (snd (dispatch E m voice (JObj d) st)) = stderr (yield E st)"
proof -
  have d: "dispatch E m voice (JObj d) st
           = (None, handle_generate E m [] voice ((yield E st)\<lparr>interrupted := False\<rparr>))"
    using assms by (simp add: dispatch_generate)
  have hg: "handle_generate E m [] voice ((yield E st)\<lparr>interrupted := False\<rparr>)
          = (yield E st)\<lparr>interrupted := False, stdout := stdout (yield E st) @ [0, 0, 0, 0]\<rparr>"
    by (simp add: handle_generate_def strip_def write_end_marker_def be32_def)
  show ?thesis
    unfolding d hg by (simp add: yield_stdout yield_generate_calls)
qed

theorem generate_without_text_writes_only_the_end_marker_witness:
  "map_of [(str ''cmd'', JStr (str ''generate''))] (str ''cmd'') = Some (JStr (str ''generate''))
   \<and> map_of [(str ''cmd'', JStr (str ''generate''))] (str ''text'') = None
   \<and> dispatch demo_env five_chunks DEFAULT_VOICE (JObj [(str ''cmd'', JStr (str ''generate''))]) idle
       = (None, idle\<lparr>stdout := [0, 0, 0, 0]\<rparr>)"
proof -
  have a: "map_of [(str ''cmd'', JStr (str ''generate''))] (str ''cmd'') = Some (JStr (str ''generate''))"
    by simp
  have b: "map_of [(str ''cmd'', JStr (str ''generate''))] (str ''text'') = None"
    by (simp add: str_def)
  have "handle_generate demo_env five_chunks [] DEFAULT_VOICE ((yield demo_env idle)\<lparr>interrupted := False\<rparr>)
          = idle\<lparr>stdout := [0, 0, 0, 0]\<rparr>"
    by (simp add: handle_generate_def strip_def write_end_marker_def be32_def yield_def idle_def)
  then show ?thesis
    using a b generate_without_text_writes_only_the_end_marker [OF a b, of demo_env five_chunks DEFAULT_VOICE idle]
    by simp
qed

subsection \<open>Generations in the order of arrival\<close>

lemma arrivals_line:
  assumes "reader_alive st" and "stdin st = l # ls"
  shows "arrivals E (stdin_reader_line E l (st\<lparr>stdin := ls\<rparr>)) = arrivals E st"
  using assms
  by (simp add: arrivals_def stdin_reader_line_def log_msg_def Let_def split: sum.split)

lemma arrivals_stdin_reader: "arrivals E (stdin_reader E n st) = arrivals E st"
proof (induction n arbitrary: st)
  case 0
  show ?case by simp
next
  case (Suc n)
  show ?case
  proof (cases "reader_alive st \<and> stdin st \<noteq> []")
    case False
    then show ?thesis by (auto split: list.split)
  next
    case True
    then obtain l ls where ls: "stdin st = l # ls" by (auto simp: neq_Nil_conv)
    have "arrivals E (stdin_reader E n (stdin_reader_line E l (st\<lparr>stdin := ls\<rparr>)))
            = arrivals E (stdin_reader_line E l (st\<lparr>stdin := ls\<rparr>))"
      by (rule Suc.IH)
    also have "\<dots> = arrivals E st" using True ls by (simp add: arrivals_line)
    finally show ?thesis using True ls by simp
  qed
qed

lemma arrivals_yield: "arrivals E (yield E st) = arrivals E st"
proof (cases "sched st")
  case Nil
  then show ?thesis by (simp add: yield_def)
next
  case (Cons n ns)
  have "arrivals E (stdin_reader E n (st\<lparr>sched := ns\<rparr>)) = arrivals E (st\<lparr>sched := ns\<rparr>)"
    by (rule arrivals_stdin_reader)
  also have "\<dots> = arrivals E st" by (simp add: arrivals_def)
  finally show ?thesis using Cons by (simp add: yield_def)
qed

lemma stdin_reader_line_stdin: "stdin (stdin_reader_line E l st) = stdin st"
  by (simp add: stdin_reader_line_def log_msg_def Let_def split: sum.split)

lemma stdin_reader_done:
  "length (stdin st) \<le> n \<Longrightarrow>
     \<not> reader_alive (stdin_reader E n st) \<or> stdin (stdin_reader E n st) = []"
proof (induction n arbitrary: st)
  case 0
  then show ?case by simp
next
  case (Suc n)
  show ?case
  proof (cases "reader_alive st \<and> stdin st \<noteq> []")
    case False
    then show ?thesis by (auto split: list.split)
  next
    case True
    then obtain l ls where ls: "stdin st = l # ls" by (auto simp: neq_Nil_conv)
    have "length (stdin (stdin_reader_line E l (st\<lparr>stdin := ls\<rparr>))) \<le> n"
      using Suc.prems ls by (simp add: stdin_reader_line_stdin)
    then show ?thesis using Suc.IH True ls by simp
  qed
qed

lemma arrivals_run: "command_queue (stdin_reader E (length (stdin st)) st) = arrivals E st"
proof -
  let ?st = "stdin_reader E (length (stdin st)) st"
  have "\<not> reader_alive ?st \<or> stdin ?st = []" by (rule stdin_reader_done) simp
  then have "arrivals E ?st = command_queue ?st" by (auto simp: arrivals_def)
  then show ?thesis by (simp add: arrivals_stdin_reader)
qed

lemma queue_get_arrivals:
  "queue_get E st = (g, st1) \<Longrightarrow>
     stdout st1 = stdout st
     \<and> (case g of None \<Rightarrow> arrivals E st = [] | Some cmd \<Rightarrow> arrivals E st = cmd # arrivals E st1)"
proof (induction E st rule: queue_get.induct)
  case (1 E st)
  show ?case
  proof (cases "command_queue st")
    case (Cons c q)
    then have "queue_get E st = (Some c, st\<lparr>command_queue := q\<rparr>)"
      by (subst queue_get.simps) simp
    with "1.prems" Cons show ?thesis by (auto simp: arrivals_def)
  next
    case Nil
    show ?thesis
    proof (cases "reader_alive st \<and> stdin st \<noteq> []")
      case True
      then have "queue_get E st = queue_get E (stdin_reader E 1 st)"
        using Nil by (subst queue_get.simps) simp
      then have rec: "queue_get E (stdin_reader E 1 st) = (g, st1)" using "1.prems" by simp
      have "stdout st1 = stdout (stdin_reader E 1 st)
        \<and> (case g of None \<Rightarrow> arrivals E (stdin_reader E 1 st) = []
            | Some cmd \<Rightarrow> arrivals E (stdin_reader E 1 st) = cmd # arrivals E st1)"
        using "1.IH" Nil True rec by simp
      then show ?thesis by (simp only: arrivals_stdin_reader stdin_reader_stdout)
    next
      case False
      then have "queue_get E st = (None, st)"
        using Nil by (subst queue_get.simps) auto
      with "1.prems" Nil False show ?thesis by (auto simp: arrivals_def)
    qed
  qed
qed


lemma arrivals_updates:
  "arrivals E (stdout_update f1 st) = arrivals E st"
  "arrivals E (stderr_update f2 st) = arrivals E st"
  "arrivals E (generate_calls_update f3 st) = arrivals E st"
  "arrivals E (interrupted_update f4 st) = arrivals E st"
  "arrivals E (sched_update f5 st) = arrivals E st"
  "arrivals E (write_end_marker st) = arrivals E st"
  "arrivals E (log_msg msg st) = arrivals E st"
  by (simp_all add: arrivals_def write_end_marker_def log_msg_def)

lemma arrivals_for_results: "arrivals E (snd (for_results E ps st)) = arrivals E st"
proof (induction E ps st rule: for_results.induct)
  case (3 E r rest st)
  have y: "arrivals E (yield E st) = arrivals E st" by (rule arrivals_yield)
  show ?case
  proof (cases "interrupted (yield E st)")
    case True
    then show ?thesis using y by (simp add: Let_def)
  next
    case False
    show ?thesis
    proof (cases r)
      case (Unconvertible e)
      then show ?thesis using False y by (simp add: Let_def)
    next
      case (Samples audio)
      show ?thesis
      proof (cases "write_audio_chunk (float32_to_int16_pcm audio) (yield E st)")
        case (Inl e)
        then show ?thesis using False Samples y by (simp add: Let_def)
      next
        case (Inr st2)
        then have "arrivals E st2 = arrivals E (yield E st)"
          by (auto simp: write_audio_chunk_def arrivals_updates split: sum.splits)
        moreover have "arrivals E (snd (for_results E rest st2)) = arrivals E st2"
          using "3.IH" False Samples Inr by simp
        ultimately show ?thesis using False Samples Inr y by (simp add: Let_def)
      qed
    qed
  qed
qed simp_all

lemma arrivals_handle_generate: "arrivals E (handle_generate E m text voice st) = arrivals E st"
proof (cases "strip text = []")
  case True
  then show ?thesis by (simp add: handle_generate_def arrivals_updates)
next
  case False
  let ?st0 = "st\<lparr>generate_calls := generate_calls st @ [(text, voice)]\<rparr>"
  obtain x st1 where r: "for_results E (generate m text voice (Some True)) ?st0 = (x, st1)"
    by (cases "for_results E (generate m text voice (Some True)) ?st0")
  have "arrivals E st1 = arrivals E ?st0"
    using arrivals_for_results [of E "generate m text voice (Some True)" ?st0] r by simp
  moreover have "arrivals E ?st0 = arrivals E st" by (simp add: arrivals_updates)
  ultimately have "arrivals E st1 = arrivals E st" by simp
  then show ?thesis using False r
    by (cases x) (simp_all add: handle_generate_def arrivals_updates arrivals_yield)
qed

lemma dispatch_cases:
  "(\<exists>s. fst (dispatch E m voice cmd st) = Some s \<and> generations (cmd # rest) = []
        \<and> stdout (snd (dispatch E m voice cmd st)) = stdout st)
   \<or> (fst (dispatch E m voice cmd st) = None \<and> generations (cmd # rest) = generations rest
        \<and> stdout (snd (dispatch E m voice cmd st)) = stdout st
        \<and> arrivals E (snd (dispatch E m voice cmd st)) = arrivals E st)
   \<or> (\<exists>tx n. fst (dispatch E m voice cmd st) = None
        \<and> generations (cmd # rest) = tx # generations rest
        \<and> stdout (snd (dispatch E m voice cmd st)) = stdout st @ generation_bytes m voice tx n
        \<and> arrivals E (snd (dispatch E m voice cmd st)) = arrivals E st)"
proof (cases "dict_get cmd (str ''cmd'')")
  case (Inl e)
  then show ?thesis by (simp add: dispatch_def)
next
  case (Inr c)
  show ?thesis
  proof (cases "c = Some (JStr (str ''generate''))")
    case gen: True
    let ?st1 = "(yield E st)\<lparr>interrupted := False\<rparr>"
    have out1: "stdout ?st1 = stdout st" by (simp add: yield_stdout)
    have arr1: "arrivals E ?st1 = arrivals E st"
      by (simp add: arrivals_updates arrivals_yield)
    show ?thesis
    proof (cases "dict_get cmd (str ''text'')")
      case (Inl e)
      then show ?thesis using Inr gen by (simp add: dispatch_def Let_def out1)
    next
      case t: (Inr t)
      show ?thesis
      proof (cases "case t of None \<Rightarrow> JStr [] | Some v \<Rightarrow> v")
        case (JStr tx)
        have d: "dispatch E m voice cmd st = (None, handle_generate E m tx voice ?st1)"
          using Inr gen t JStr by (simp add: dispatch_def Let_def)
        have g: "generations (cmd # rest) = tx # generations rest"
          using Inr gen t JStr by simp
        from handle_generate_written [of m tx voice E ?st1] obtain n where
          "stdout (handle_generate E m tx voice ?st1)
             = stdout ?st1 @ frames (take n (writable (results_of m tx voice))) @ end_marker"
          by blast
        then have "stdout (snd (dispatch E m voice cmd st)) = stdout st @ generation_bytes m voice tx n"
          unfolding d by (simp add: out1 generation_bytes_def)
        moreover have "arrivals E (snd (dispatch E m voice cmd st)) = arrivals E st"
          unfolding d by (simp add: arrivals_handle_generate arr1)
        ultimately show ?thesis using d g by auto
      qed (use Inr gen t in \<open>simp_all add: dispatch_def Let_def out1\<close>)
    qed
  next
    case nogen: False
    show ?thesis
    proof (cases "c = Some (JStr (str ''quit''))")
      case True
      then show ?thesis using Inr nogen by (simp add: dispatch_def)
    next
      case False
      have "arrivals E (log_msg (str ''ERROR: Unknown command: '' @ format_value E c) (yield E st))
              = arrivals E st"
        by (simp add: arrivals_updates arrivals_yield)
      then show ?thesis using Inr nogen False
        by (simp add: dispatch_def log_msg_def yield_stdout)
    qed
  qed
qed

text \<open>
  C7. Whatever the schedule of the two threads, stdout after the command loop is stdout
  before it followed by one block per generate command served, in the order in which the
  commands arrived on the queue; a block is the data frames of that generation and then its
  end marker. So when Generate(A) is queued before Generate(B), every frame of B comes
  after the end marker of A.
\<close>

theorem generations_in_arrival_order:
  "\<exists>ns. length ns = length (generations (command_queue (stdin_reader E (length (stdin st)) st)))
     \<and> stdout (snd (main_loop E m voice st))
         = stdout st
           @ concat (map2 (generation_bytes m voice)
                       (generations (command_queue (stdin_reader E (length (stdin st)) st))) ns)"
proof -
  have "\<exists>ns. length ns = length (generations (arrivals E st))
     \<and> stdout (snd (main_loop E m voice st))
         = stdout st @ concat (map2 (generation_bytes m voice) (generations (arrivals E st)) ns)"
  proof (induction E m voice st rule: main_loop.induct)
    case (1 E m voice st)
    obtain g st1 where get: "queue_get E (yield E st) = (g, st1)"
      by (cases "queue_get E (yield E st)")
    from queue_get_arrivals [OF get]
    have out1: "stdout st1 = stdout st"
      and arr: "case g of None \<Rightarrow> arrivals E st = [] | Some cmd \<Rightarrow> arrivals E st = cmd # arrivals E st1"
      by (simp_all add: yield_stdout arrivals_yield split: option.splits)
    show ?case
    proof (cases g)
      case None
      then have "main_loop E m voice st = (Hang, st1)" using get by (simp add: main_loop_hang)
      moreover have "generations (arrivals E st) = []" using arr None by simp
      ultimately show ?thesis using out1 by simp
    next
      case (Some cmd)
      then have arr: "arrivals E st = cmd # arrivals E st1" using arr by simp
      have get: "queue_get E (yield E st) = (Some cmd, st1)" using get Some by simp
      obtain s st2 where d: "dispatch E m voice cmd st1 = (s, st2)"
        by (cases "dispatch E m voice cmd st1")
      from dispatch_cases [of E m voice cmd st1 "arrivals E st1"]
      consider (stop) s' where "s = Some s'" "generations (arrivals E st) = []" "stdout st2 = stdout st"
        | (skip) "s = None" "generations (arrivals E st) = generations (arrivals E st1)"
            "stdout st2 = stdout st" "arrivals E st2 = arrivals E st1"
        | (gen) tx n where "s = None" "generations (arrivals E st) = tx # generations (arrivals E st1)"
            "stdout st2 = stdout st @ generation_bytes m voice tx n" "arrivals E st2 = arrivals E st1"
        unfolding d arr out1 [symmetric] by auto
      then show ?thesis
      proof cases
        case stop
        then have "main_loop E m voice st = (s', st2)" using get d by (simp add: main_loop_stop)
        then show ?thesis using stop by simp
      next
        case skip
        then have ml: "main_loop E m voice st = main_loop E m voice st2"
          using get d by (simp add: main_loop_next)
        from "1.IH" [OF get [symmetric] refl d [symmetric, unfolded skip(1)] refl]
        obtain ns where "length ns = length (generations (arrivals E st2))"
          "stdout (snd (main_loop E m voice st2))
             = stdout st2 @ concat (map2 (generation_bytes m voice) (generations (arrivals E st2)) ns)"
          by blast
        then show ?thesis unfolding ml using skip by auto
      next
        case gen
        then have ml: "main_loop E m voice st = main_loop E m voice st2"
          using get d by (simp add: main_loop_next)
        from "1.IH" [OF get [symmetric] refl d [symmetric, unfolded gen(1)] refl]
        obtain ns where ns: "length ns = length (generations (arrivals E st2))"
          "stdout (snd (main_loop E m voice st2))
             = stdout st2 @ concat (map2 (generation_bytes m voice) (generations (arrivals E st2)) ns)"
          by blast
        have "length (n # ns) = length (generations (arrivals E st))"
          using ns gen by simp
        moreover have "stdout (snd (main_loop E m voice st))
             = stdout st @ concat (map2 (generation_bytes m voice) (generations (arrivals E st)) (n # ns))"
          unfolding ml using ns gen by simp
        ultimately show ?thesis by blast
      qed
    qed
  qed
  then show ?thesis by (simp only: arrivals_run)
qed

subsection \<open>Interrupts and the queue\<close>

lemma unflag_eq:
  assumes "a\<lparr>interrupted := False\<rparr> = b\<lparr>interrupted := False\<rparr>"
  shows "a = b\<lparr>interrupted := interrupted a\<rparr>"
proof -
  have "a = (a\<lparr>interrupted := False\<rparr>)\<lparr>interrupted := interrupted a\<rparr>" by simp
  also have "\<dots> = (b\<lparr>interrupted := False\<rparr>)\<lparr>interrupted := interrupted a\<rparr>"
    by (simp only: assms)
  finally show ?thesis by simp
qed

lemma stdin_reader_line_stale:
  "(stdin_reader_line E l (st\<lparr>interrupted := x\<rparr>))\<lparr>interrupted := False\<rparr>
     = (stdin_reader_line E l st)\<lparr>interrupted := False\<rparr>"
  by (simp add: stdin_reader_line_def log_msg_def Let_def split: sum.split)

lemma stdin_reader_stale:
  "(stdin_reader E n (st\<lparr>interrupted := x\<rparr>))\<lparr>interrupted := False\<rparr>
     = (stdin_reader E n st)\<lparr>interrupted := False\<rparr>"
proof (induction n arbitrary: st x)
  case 0
  show ?case by simp
next
  case (Suc n)
  show ?case
  proof (cases "reader_alive st")
    case False
    then show ?thesis by simp
  next
    case True
    show ?thesis
    proof (cases "stdin st")
      case Nil
      then show ?thesis using True by simp
    next
      case (Cons line lines)
      let ?a = "stdin_reader_line E line (st\<lparr>interrupted := x, stdin := lines\<rparr>)"
      let ?b = "stdin_reader_line E line (st\<lparr>stdin := lines\<rparr>)"
      have sw: "st\<lparr>interrupted := x, stdin := lines\<rparr> = (st\<lparr>stdin := lines\<rparr>)\<lparr>interrupted := x\<rparr>"
        by (cases st) simp
      have "?a\<lparr>interrupted := False\<rparr> = ?b\<lparr>interrupted := False\<rparr>"
        unfolding sw by (rule stdin_reader_line_stale)
      then have ab: "?a = ?b\<lparr>interrupted := interrupted ?a\<rparr>" by (rule unflag_eq)
      have "(stdin_reader E n ?a)\<lparr>interrupted := False\<rparr>
              = (stdin_reader E n (?b\<lparr>interrupted := interrupted ?a\<rparr>))\<lparr>interrupted := False\<rparr>"
        using ab by simp
      also have "\<dots> = (stdin_reader E n ?b)\<lparr>interrupted := False\<rparr>"
        by (rule Suc.IH)
      finally show ?thesis using True Cons by simp
    qed
  qed
qed

lemma yield_stale:
  "(yield E (st\<lparr>interrupted := x\<rparr>))\<lparr>interrupted := False\<rparr>
     = (yield E st)\<lparr>interrupted := False\<rparr>"
proof (cases "sched st")
  case Nil
  then show ?thesis by (simp add: yield_def)
next
  case (Cons n ns)
  have sw: "st\<lparr>interrupted := x, sched := ns\<rparr> = (st\<lparr>sched := ns\<rparr>)\<lparr>interrupted := x\<rparr>"
    by (cases st) simp
  have "(stdin_reader E n (st\<lparr>interrupted := x, sched := ns\<rparr>))\<lparr>interrupted := False\<rparr>
          = (stdin_reader E n (st\<lparr>sched := ns\<rparr>))\<lparr>interrupted := False\<rparr>"
    unfolding sw by (rule stdin_reader_stale)
  then show ?thesis using Cons by (simp add: yield_def)
qed

lemma all_checks_clear:
  assumes "\<forall>i < length (writable (results_of m text voice)). \<not> interrupted (at_check E st i)"
  shows "stdout (handle_generate E m text voice st)
           = stdout st @ frames (writable (results_of m text voice)) @ end_marker"
proof -
  from handle_generate_written [of m "text" voice E st] obtain n where
    n: "n \<le> length (writable (results_of m text voice))"
    and out: "stdout (handle_generate E m text voice st)
         = stdout st @ frames (take n (writable (results_of m text voice))) @ end_marker"
    and broke: "n < length (writable (results_of m text voice)) \<longrightarrow>
          interrupted (at_check E st n) \<and> interrupted (handle_generate E m text voice st)"
    by blast
  have "n = length (writable (results_of m text voice))"
    using n broke assms by (cases "n < length (writable (results_of m text voice))") simp_all
  then show ?thesis using out by simp
qed

lemma at_check_no_sched: "sched st = [] \<Longrightarrow> at_check E st i = st"
  by (induction i) (simp_all add: at_check_def yield_def)

text \<open>
  C3. A line that parses to an object whose \<open>cmd\<close> is \<open>"interrupt"\<close> makes the
  reader thread set the event and do nothing else: the queue is as it was. And an
  interrupt aimed at the generation A that runs does not reach a generation B that waits
  on the queue. When B is dispatched, in whatever state, the event is cleared before
  \<open>handle_generate\<close> starts, so that the dispatch of B with the event set is the
  dispatch of B with the event as it was: the value of the event at that moment has no
  effect. If no interrupt arrives while B runs, that is if the event, counted from this
  clear, is not set at any of B's tests, then B, dispatched with the event set, writes
  every chunk of its stream and its end marker.
\<close>

theorem interrupt_bypasses_the_queue:
  assumes "strip raw \<noteq> []"
    and "json_loads E (strip raw) = Inr (JObj d)"
    and "map_of d (str ''cmd'') = Some (JStr (str ''interrupt''))"
    and "map_of dB (str ''cmd'') = Some (JStr (str ''generate''))"
    and "map_of dB (str ''text'') = Some (JStr b)"
    and "\<forall>i < length (writable (results_of m b voice)).
           \<not> interrupted (at_check E ((yield E st')\<lparr>interrupted := False\<rparr>) i)"
  shows "stdin_reader_line E raw st = st\<lparr>interrupted := True\<rparr>
    \<and> command_queue (stdin_reader_line E raw st) = command_queue st
    \<and> dispatch E m voice (JObj dB) st'
        = (None, handle_generate E m b voice ((yield E st')\<lparr>interrupted := False\<rparr>))
    \<and> dispatch E m voice (JObj dB) (st'\<lparr>interrupted := True\<rparr>) = dispatch E m voice (JObj dB) st'
    \<and> stdout (snd (dispatch E m voice (JObj dB) (st'\<lparr>interrupted := True\<rparr>)))
        = stdout st' @ frames (writable (results_of m b voice)) @ end_marker"
proof -
  have r: "stdin_reader_line E raw st = st\<lparr>interrupted := True\<rparr>"
    using assms(1-3) by (simp add: stdin_reader_line_def dict_get_def Let_def)
  let ?st1 = "(yield E st')\<lparr>interrupted := False\<rparr>"
  have d: "\<And>s. dispatch E m voice (JObj dB) s
             = (None, handle_generate E m b voice ((yield E s)\<lparr>interrupted := False\<rparr>))"
    using assms(4,5) by (simp add: dispatch_generate)
  have stale: "dispatch E m voice (JObj dB) (st'\<lparr>interrupted := True\<rparr>)
                 = dispatch E m voice (JObj dB) st'"
    unfolding d by (simp only: yield_stale)
  have "stdout (handle_generate E m b voice ?st1)
           = stdout ?st1 @ frames (writable (results_of m b voice)) @ end_marker"
    using assms(6) by (rule all_checks_clear)
  then have "stdout (snd (dispatch E m voice (JObj dB) st'))
        = stdout st' @ frames (writable (results_of m b voice)) @ end_marker"
    unfolding d by (simp add: yield_stdout)
  then show ?thesis unfolding r stale using d [of st'] by simp
qed

theorem interrupt_bypasses_the_queue_witness:
  "strip interrupt_line \<noteq> []
   \<and> json_loads demo_env (strip interrupt_line) = Inr (JObj [(str ''cmd'', JStr (str ''interrupt''))])
   \<and> interrupted b_dequeued
   \<and> list_all (\<lambda>i. \<not> interrupted
          (at_check demo_env ((yield demo_env b_dequeued)\<lparr>interrupted := False\<rparr>) i))
        [0 ..< length (writable (results_of five_chunks (str ''B'') DEFAULT_VOICE))]
   \<and> stdin_reader_line demo_env interrupt_line (idle\<lparr>command_queue := [JInt 7]\<rparr>)
        = idle\<lparr>command_queue := [JInt 7], interrupted := True\<rparr>
   \<and> stdout (snd (dispatch demo_env five_chunks DEFAULT_VOICE
          (JObj [(str ''cmd'', JStr (str ''generate'')), (str ''text'', JStr (str ''B''))]) b_dequeued))
        = stdout b_dequeued @ frames (writable (results_of five_chunks (str ''B'') DEFAULT_VOICE))
          @ end_marker
   \<and> stdout (snd (dispatch demo_env five_chunks DEFAULT_VOICE
          (JObj [(str ''cmd'', JStr (str ''generate'')), (str ''text'', JStr (str ''B''))]) b_dequeued))
        = [0, 0, 0, 2, 0, 0,  0, 0, 0, 0,
           0, 0, 0, 2, 0, 0,  0, 0, 0, 2, 0xFF, 0x7F,  0, 0, 0, 2, 0x01, 0x80,
           0, 0, 0, 2, 0xFF, 0x7F,  0, 0, 0, 2, 0x01, 0x80,  0, 0, 0, 0]"
proof -
  let ?B = "[(str ''cmd'', JStr (str ''generate'')), (str ''text'', JStr (str ''B''))]"
  let ?W = "writable (results_of five_chunks (str ''B'') DEFAULT_VOICE)"
  let ?s = "(yield demo_env b_dequeued)\<lparr>interrupted := False\<rparr>"
  have h1: "strip interrupt_line \<noteq> []" by (simp add: strip_lines lines_distinct)
  have h2: "json_loads demo_env (strip interrupt_line)
              = Inr (JObj [(str ''cmd'', JStr (str ''interrupt''))])"
    by (simp add: strip_lines demo_env_def demo_loads_lines)
  have h3: "map_of [(str ''cmd'', JStr (str ''interrupt''))] (str ''cmd'')
              = Some (JStr (str ''interrupt''))" by simp
  have h4: "map_of ?B (str ''cmd'') = Some (JStr (str ''generate''))" by simp
  have h5: "map_of ?B (str ''text'') = Some (JStr (str ''B''))" by (simp add: str_eq)
  have quiet: "\<And>i. at_check demo_env ?s i = ?s"
    by (rule at_check_no_sched) (simp add: yield_def b_dequeued_def idle_def)
  have h6: "\<forall>i < length ?W. \<not> interrupted (at_check demo_env ?s i)"
    by (simp add: quiet)
  have h6': "list_all (\<lambda>i. \<not> interrupted (at_check demo_env ?s i)) [0 ..< length ?W]"
    by (simp add: quiet list_all_iff)
  have set: "interrupted b_dequeued" by (simp add: b_dequeued_def)
  have same: "b_dequeued\<lparr>interrupted := True\<rparr> = b_dequeued" by (simp add: b_dequeued_def)
  have bytes: "stdout b_dequeued @ frames ?W @ end_marker
        = [0, 0, 0, 2, 0, 0,  0, 0, 0, 0,
           0, 0, 0, 2, 0, 0,  0, 0, 0, 2, 0xFF, 0x7F,  0, 0, 0, 2, 0x01, 0x80,
           0, 0, 0, 2, 0xFF, 0x7F,  0, 0, 0, 2, 0x01, 0x80,  0, 0, 0, 0]"
    using strip_A
    by (simp add: b_dequeued_def idle_def results_of_def five_chunks_def frames_def frame_def
        encode_demo be32_def end_marker_def)
  have "stdout (snd (dispatch demo_env five_chunks DEFAULT_VOICE (JObj ?B) b_dequeued))
        = stdout b_dequeued @ frames ?W @ end_marker"
    using interrupt_bypasses_the_queue [OF h1 h2 h3 h4 h5 h6, of "idle\<lparr>command_queue := [JInt 7]\<rparr>"]
    unfolding same by blast
  moreover have "stdin_reader_line demo_env interrupt_line (idle\<lparr>command_queue := [JInt 7]\<rparr>)
        = idle\<lparr>command_queue := [JInt 7], interrupted := True\<rparr>"
    using interrupt_bypasses_the_queue [OF h1 h2 h3 h4 h5 h6, of "idle\<lparr>command_queue := [JInt 7]\<rparr>"]
    by simp
  ultimately show ?thesis using h1 h2 set h6' bytes by simp
qed

subsection \<open>Lines that are not commands\<close>

text \<open>
  A line that \<open>json.loads\<close> rejects is logged and skipped, and the commands after it
  are served.
\<close>

lemma undecodable_line_logged:
  assumes "strip raw \<noteq> []" and "json_loads E (strip raw) = Inl e"
  shows "stdin_reader_line E raw st = log_msg (str ''ERROR: Invalid JSON: '' @ e) st"
  using assms by (simp add: stdin_reader_line_def Let_def)

lemma strip_garbage: "strip (str ''garbage'') = str ''garbage''"
  by (simp add: strip_def str_def py_isspace_def)

lemma garbage_undecodable: "demo_loads (str ''garbage'') = Inl (str ''Expecting value'')"
  by (simp add: demo_loads_def interrupt_line_def quit_line_def generate_line_def
      generate_no_text_line_def str_def)

lemma demo_garbage_then_quit:
  "main_loop demo_env five_chunks DEFAULT_VOICE garbage_then_quit
     = (Break, idle\<lparr>stderr := [str ''[tts-server] '' @ str ''ERROR: Invalid JSON: '' @ str ''Expecting value'' @ nl]\<rparr>)"
proof -
  let ?Q = "JObj [(str ''cmd'', JStr (str ''quit''))]"
  let ?s = "idle\<lparr>stderr := [str ''[tts-server] '' @ str ''ERROR: Invalid JSON: '' @ str ''Expecting value'' @ nl]\<rparr>"
  have ne: "str ''garbage'' \<noteq> []" by (simp add: str_def)
  have g: "queue_get demo_env (yield demo_env garbage_then_quit) = (Some ?Q, ?s)"
    by (simp add: garbage_then_quit_def idle_def run_simps strip_garbage garbage_undecodable ne
        log_msg_def)
  have d: "dispatch demo_env five_chunks DEFAULT_VOICE ?Q ?s = (Some Break, ?s)"
    by (simp add: idle_def run_simps)
  show ?thesis using g d by (rule main_loop_stop)
qed

text \<open>
  C5 fails on the code for a line that is JSON but no object. On the input \<open>42\<close>,
  then a quit command: \<open>json.loads\<close> returns the number 42, \<open>cmd.get\<close> raises
  \<open>AttributeError\<close> outside the \<open>try\<close>, and the reader thread is dead. Nothing is
  logged, the quit command stays unread on stdin, and the main thread waits on the empty
  queue for ever.
\<close>

theorem number_line_kills_the_reader:
  "main_loop demo_env five_chunks DEFAULT_VOICE number_then_quit
     = (Hang, idle\<lparr>stdin := [quit_line], reader_alive := False\<rparr>)"
proof -
  have "queue_get demo_env (yield demo_env number_then_quit)
          = (None, idle\<lparr>stdin := [quit_line], reader_alive := False\<rparr>)"
    by (simp add: number_then_quit_def idle_def run_simps)
  then show ?thesis by (rule main_loop_hang)
qed

subsection \<open>Startup\<close>

lemma ready_log_msg: "ready_count (log_msg msg st) = ready_count st"
  by (simp add: ready_count_def log_msg_def str_def)

lemma ready_updates:
  "ready_count (stdout_update f1 st) = ready_count st"
  "ready_count (stdin_update f2 st) = ready_count st"
  "ready_count (generate_calls_update f3 st) = ready_count st"
  "ready_count (interrupted_update f4 st) = ready_count st"
  "ready_count (sched_update f5 st) = ready_count st"
  "ready_count (command_queue_update f6 st) = ready_count st"
  "ready_count (reader_alive_update f7 st) = ready_count st"
  "ready_count (write_end_marker st) = ready_count st"
  by (simp_all add: ready_count_def write_end_marker_def)

lemma ready_stdin_reader_line: "ready_count (stdin_reader_line E l st) = ready_count st"
  by (simp add: stdin_reader_line_def ready_log_msg ready_updates Let_def split: sum.split)

lemma ready_stdin_reader: "ready_count (stdin_reader E n st) = ready_count st"
proof (induction n arbitrary: st)
  case 0
  show ?case by simp
next
  case (Suc n)
  show ?case
    by (cases "stdin st") (simp_all add: Suc.IH ready_stdin_reader_line ready_updates)
qed

lemma ready_yield: "ready_count (yield E st) = ready_count st"
  by (cases "sched st") (simp_all add: yield_def ready_stdin_reader ready_updates)

lemma ready_queue_get: "ready_count (snd (queue_get E st)) = ready_count st"
proof (induction E st rule: queue_get.induct)
  case (1 E st)
  show ?case
  proof (cases "command_queue st")
    case (Cons c q)
    then show ?thesis by (subst queue_get.simps) (simp add: ready_updates)
  next
    case Nil
    show ?thesis
    proof (cases "reader_alive st \<and> stdin st \<noteq> []")
      case True
      then have eq: "queue_get E st = queue_get E (stdin_reader E 1 st)"
        using Nil by (subst queue_get.simps) simp
      have "ready_count (snd (queue_get E (stdin_reader E 1 st)))
              = ready_count (stdin_reader E 1 st)"
        using Nil True by (rule "1.IH")
      then show ?thesis unfolding eq by (simp only: ready_stdin_reader)
    next
      case False
      then have "queue_get E st = (None, st)"
        using Nil by (subst queue_get.simps) auto
      then show ?thesis by simp
    qed
  qed
qed

lemma ready_for_results: "ready_count (snd (for_results E ps st)) = ready_count st"
proof (induction E ps st rule: for_results.induct)
  case (3 E r rest st)
  have y: "ready_count (yield E st) = ready_count st" by (rule ready_yield)
  show ?case
  proof (cases "interrupted (yield E st)")
    case True
    then show ?thesis using y by (simp add: Let_def)
  next
    case False
    show ?thesis
    proof (cases r)
      case (Unconvertible e)
      then show ?thesis using False y by (simp add: Let_def)
    next
      case (Samples audio)
      show ?thesis
      proof (cases "write_audio_chunk (float32_to_int16_pcm audio) (yield E st)")
        case (Inl e)
        then show ?thesis using False Samples y by (simp add: Let_def)
      next
        case (Inr st2)
        then have "ready_count st2 = ready_count (yield E st)"
          by (auto simp: write_audio_chunk_def ready_updates split: sum.splits)
        moreover have "ready_count (snd (for_results E rest st2)) = ready_count st2"
          using "3.IH" False Samples Inr by simp
        ultimately show ?thesis using False Samples Inr y by (simp add: Let_def)
      qed
    qed
  qed
qed simp_all

lemma ready_handle_generate: "ready_count (handle_generate E m text voice st) = ready_count st"
proof (cases "strip text = []")
  case True
  then show ?thesis by (simp add: handle_generate_def ready_updates)
next
  case False
  let ?st0 = "st\<lparr>generate_calls := generate_calls st @ [(text, voice)]\<rparr>"
  obtain x st1 where r: "for_results E (generate m text voice (Some True)) ?st0 = (x, st1)"
    by (cases "for_results E (generate m text voice (Some True)) ?st0")
  have "ready_count st1 = ready_count ?st0"
    using ready_for_results [of E "generate m text voice (Some True)" ?st0] r by simp
  then have "ready_count st1 = ready_count st" by (simp add: ready_updates)
  then show ?thesis using False r
    by (cases x) (simp_all add: handle_generate_def ready_updates ready_log_msg ready_yield)
qed

lemma ready_dispatch: "ready_count (snd (dispatch E m voice cmd st)) = ready_count st"
  unfolding dispatch_def Let_def
  by (simp add: ready_handle_generate ready_updates ready_log_msg ready_yield
      split: sum.split option.split json.split)

lemma ready_main_loop: "ready_count (snd (main_loop E m voice st)) = ready_count st"
proof (induction E m voice st rule: main_loop.induct)
  case (1 E m voice st)
  obtain g st1 where get: "queue_get E (yield E st) = (g, st1)"
    by (cases "queue_get E (yield E st)")
  have r1: "ready_count st1 = ready_count st"
    using ready_queue_get [of E "yield E st"] get by (simp add: ready_yield)
  show ?case
  proof (cases g)
    case None
    then show ?thesis using get r1 by (simp add: main_loop_hang)
  next
    case (Some cmd)
    obtain s st2 where d: "dispatch E m voice cmd st1 = (s, st2)"
      by (cases "dispatch E m voice cmd st1")
    have r2: "ready_count st2 = ready_count st"
      using ready_dispatch [of E m voice cmd st1] d r1 by simp
    have get': "queue_get E (yield E st) = (Some cmd, st1)" using get Some by simp
    show ?thesis
    proof (cases s)
      case None
      have "main_loop E m voice st = main_loop E m voice st2"
        using get' d None by (simp add: main_loop_next)
      moreover have "ready_count (snd (main_loop E m voice st2)) = ready_count st2"
        using "1.IH" [OF get' [symmetric] refl d [symmetric, unfolded None] refl] .
      ultimately show ?thesis using r2 by simp
    next
      case (Some s')
      then have "main_loop E m voice st = (s', st2)"
        using get' d by (simp add: main_loop_stop)
      then show ?thesis using r2 by simp
    qed
  qed
qed

text \<open>
  C9. When \<open>load_model\<close> raises, \<open>main\<close> logs the line
  \<open>ERROR: Failed to load model: ...\<close> and exits with code 1; \<open>READY\<close> is not
  written and the model is never called. When it returns a model, the startup calls
  \<open>generate\<close> once, for the warm-up text, logs \<open>Warm-up done\<close> or, when the warm-up
  raises, a warning, and writes \<open>READY\<close> after it in either case; the process goes on
  into the command loop (it does not exit with code 1), and over the whole run \<open>READY\<close>
  is written exactly once.
\<close>

theorem startup_reports_load_failure_and_is_ready_once:
  "(load_model E (model_id_of argv) = Inl e \<longrightarrow>
      main E argv st
        = (Exited 1,
           st\<lparr>stderr := stderr st
                  @ [str ''[tts-server] '' @ (str ''Loading model: '' @ model_id_of argv) @ nl,
                     str ''[tts-server] '' @ (str ''ERROR: Failed to load model: '' @ e) @ nl]\<rparr>)
      \<and> ready_count (snd (main E argv st)) = ready_count st
      \<and> generate_calls (snd (main E argv st)) = generate_calls st)
   \<and> (load_model E (model_id_of argv) = Inr m \<longrightarrow>
      (\<exists>st1. startup E argv st = Inr (m, voice_of argv, st1)
         \<and> generate_calls st1 = generate_calls st @ [(str ''Hello.'', voice_of argv)]
         \<and> stderr st1 = stderr st
              @ [str ''[tts-server] '' @ (str ''Loading model: '' @ model_id_of argv) @ nl,
                 str ''[tts-server] '' @ (str ''Model loaded (sample_rate=''
                    @ format_int E (sample_rate m) @ str '')'') @ nl,
                 str ''[tts-server] '' @ str ''Warming up...'' @ nl,
                 (case warm_up (generate m (str ''Hello.'') (voice_of argv) None) of
                    None \<Rightarrow> str ''[tts-server] '' @ str ''Warm-up done'' @ nl
                  | Some w \<Rightarrow> str ''[tts-server] '' @ (str ''WARNING: Warm-up failed: '' @ w) @ nl),
                 str ''READY'' @ nl])
      \<and> ready_count (snd (main E argv st)) = ready_count st + 1
      \<and> fst (main E argv st) \<noteq> Exited 1)"
proof (intro conjI impI)
  assume fail: "load_model E (model_id_of argv) = Inl e"
  then show m: "main E argv st
        = (Exited 1,
           st\<lparr>stderr := stderr st
                  @ [str ''[tts-server] '' @ (str ''Loading model: '' @ model_id_of argv) @ nl,
                     str ''[tts-server] '' @ (str ''ERROR: Failed to load model: '' @ e) @ nl]\<rparr>)"
    by (simp add: main_def startup_def log_msg_def)
  show "ready_count (snd (main E argv st)) = ready_count st"
    unfolding m by (simp add: ready_count_def str_def)
  show "generate_calls (snd (main E argv st)) = generate_calls st"
    unfolding m by simp
next
  assume ok: "load_model E (model_id_of argv) = Inr m"
  define st1 where "st1 = (case startup E argv st of Inr (m', v, s) \<Rightarrow> s | Inl s \<Rightarrow> s)"
  have su: "startup E argv st = Inr (m, voice_of argv, st1)"
    unfolding st1_def using ok by (simp add: startup_def Let_def)
  have calls: "generate_calls st1 = generate_calls st @ [(str ''Hello.'', voice_of argv)]"
    unfolding st1_def using ok
    by (simp add: startup_def Let_def log_msg_def split: option.split)
  have err: "stderr st1 = stderr st
              @ [str ''[tts-server] '' @ (str ''Loading model: '' @ model_id_of argv) @ nl,
                 str ''[tts-server] '' @ (str ''Model loaded (sample_rate=''
                    @ format_int E (sample_rate m) @ str '')'') @ nl,
                 str ''[tts-server] '' @ str ''Warming up...'' @ nl,
                 (case warm_up (generate m (str ''Hello.'') (voice_of argv) None) of
                    None \<Rightarrow> str ''[tts-server] '' @ str ''Warm-up done'' @ nl
                  | Some w \<Rightarrow> str ''[tts-server] '' @ (str ''WARNING: Warm-up failed: '' @ w) @ nl),
                 str ''READY'' @ nl]"
    unfolding st1_def using ok
    by (simp add: startup_def Let_def log_msg_def split: option.split)
  show "\<exists>st1. startup E argv st = Inr (m, voice_of argv, st1)
         \<and> generate_calls st1 = generate_calls st @ [(str ''Hello.'', voice_of argv)]
         \<and> stderr st1 = stderr st
              @ [str ''[tts-server] '' @ (str ''Loading model: '' @ model_id_of argv) @ nl,
                 str ''[tts-server] '' @ (str ''Model loaded (sample_rate=''
                    @ format_int E (sample_rate m) @ str '')'') @ nl,
                 str ''[tts-server] '' @ str ''Warming up...'' @ nl,
                 (case warm_up (generate m (str ''Hello.'') (voice_of argv) None) of
                    None \<Rightarrow> str ''[tts-server] '' @ str ''Warm-up done'' @ nl
                  | Some w \<Rightarrow> str ''[tts-server] '' @ (str ''WARNING: Warm-up failed: '' @ w) @ nl),
                 str ''READY'' @ nl]"
    using su calls err by blast
  have r1: "ready_count st1 = ready_count st + 1"
    unfolding ready_count_def err by (simp add: str_def split: option.split)
  obtain s st2 where ml: "main_loop E m (voice_of argv) st1 = (s, st2)"
    by (cases "main_loop E m (voice_of argv) st1")
  have r2: "ready_count st2 = ready_count st + 1"
    using ready_main_loop [of E m "voice_of argv" st1] ml r1 by simp
  show "ready_count (snd (main E argv st)) = ready_count st + 1"
    using su ml r2
    by (cases s) (simp_all add: main_def ready_log_msg ready_yield)
  show "fst (main E argv st) \<noteq> Exited 1"
    using su ml by (cases s) (simp_all add: main_def)
qed


theorem startup_reports_load_failure_and_is_ready_once_witness:
  "load_model no_model_env (model_id_of []) = Inl (str ''not found'')
   \<and> main no_model_env [] idle
       = (Exited 1,
          idle\<lparr>stderr :=
                 [str ''[tts-server] '' @ (str ''Loading model: '' @ DEFAULT_MODEL) @ nl,
                  str ''[tts-server] '' @ (str ''ERROR: Failed to load model: '' @ str ''not found'') @ nl]\<rparr>)
   \<and> ready_count (snd (main no_model_env [] idle)) = 0
   \<and> load_model cold_env (model_id_of []) = Inr cold_model
   \<and> warm_up (generate cold_model (str ''Hello.'') (voice_of []) None) = Some (str ''cold'')
   \<and> ready_count (snd (main cold_env [] (idle\<lparr>stdin := [quit_line]\<rparr>))) = 1
   \<and> fst (main cold_env [] (idle\<lparr>stdin := [quit_line]\<rparr>)) \<noteq> Exited 1"
proof -
  have h1: "load_model no_model_env (model_id_of []) = Inl (str ''not found'')"
    by (simp add: no_model_env_def)
  have h2: "load_model cold_env (model_id_of []) = Inr cold_model"
    by (simp add: cold_env_def)
  have w: "warm_up (generate cold_model (str ''Hello.'') (voice_of []) None) = Some (str ''cold'')"
    by (simp add: cold_model_def)
  have z: "ready_count idle = 0" "ready_count (idle\<lparr>stdin := [quit_line]\<rparr>) = 0"
    "stderr idle = []"
    by (simp_all add: ready_count_def idle_def)
  have id: "model_id_of [] = DEFAULT_MODEL" by (simp add: model_id_of_def)
  note fail = startup_reports_load_failure_and_is_ready_once
        [where E = no_model_env and argv = "[]" and e = "str ''not found''" and st = idle]
  note cold = startup_reports_load_failure_and_is_ready_once
        [where E = cold_env and argv = "[]" and m = cold_model
           and st = "idle\<lparr>stdin := [quit_line]\<rparr>"]
  have a: "main no_model_env [] idle
       = (Exited 1,
          idle\<lparr>stderr :=
                 [str ''[tts-server] '' @ (str ''Loading model: '' @ DEFAULT_MODEL) @ nl,
                  str ''[tts-server] '' @ (str ''ERROR: Failed to load model: '' @ str ''not found'') @ nl]\<rparr>)"
    using fail h1 z(3) id by simp
  have "ready_count (snd (main no_model_env [] idle)) = ready_count idle"
    using fail h1 by blast
  then have b: "ready_count (snd (main no_model_env [] idle)) = 0"
    by (simp only: z(1))
  have "ready_count (snd (main cold_env [] (idle\<lparr>stdin := [quit_line]\<rparr>)))
          = ready_count (idle\<lparr>stdin := [quit_line]\<rparr>) + 1"
    using cold h2 by blast
  then have c: "ready_count (snd (main cold_env [] (idle\<lparr>stdin := [quit_line]\<rparr>))) = 1"
    by (simp only: z(2))
  have d: "fst (main cold_env [] (idle\<lparr>stdin := [quit_line]\<rparr>)) \<noteq> Exited 1"
    using cold h2 by blast
  show ?thesis
    by (intro conjI h1 h2 w a b c d)
qed

end
